theory Spec2Isabelle
  imports Main "HOL-Library.Word" "HOL-Library.Sublist"
begin

unbundle bit_operations_syntax

section \<open>The bit buffer (src/bitbuf.js)\<close>

text \<open>
  JavaScript numbers that the buffer handles (bit indices, octets, single bits) are
  non-negative integers here and are modelled as \<open>nat\<close>; the elements of a
  \<^verbatim>\<open>Uint8Array\<close> chunk are \<open>8 word\<close>. An exception is a value: every
  operation that reads returns its result or an error together with the buffer it leaves
  behind, so that what a failed call did to the buffer is part of the model.
\<close>

datatype error = IndexError | TypeError | OutOfFuel

type_synonym 'a result = "error + 'a"

definition CHUNK_SIZE :: nat where
  "CHUNK_SIZE = 1024"

definition OCTET_SIZE :: nat where
  "OCTET_SIZE = 8"

record BitBuf =
  chunks :: "8 word list list"
  length_b :: nat
  pos :: nat

definition BitBuf_new :: BitBuf where
  "BitBuf_new = \<lparr>chunks = [], length_b = 0, pos = 0\<rparr>"

definition getCoordinates :: "nat \<Rightarrow> nat \<times> nat \<times> nat" where
  "getCoordinates index =
     (let chunkIndex = index div (CHUNK_SIZE * OCTET_SIZE);
          octetIndex = index div OCTET_SIZE - chunkIndex * CHUNK_SIZE;
          bitIndex = index - (chunkIndex * CHUNK_SIZE * OCTET_SIZE + octetIndex * OCTET_SIZE)
      in (chunkIndex, octetIndex, bitIndex))"

text \<open>
  \<^verbatim>\<open>getChunk\<close> appends zero-filled chunks until the chunk at \<open>index\<close> exists.
  The chunk itself is then \<open>chunks b ! index\<close> of the returned buffer: the source
  hands out a reference into \<^verbatim>\<open>this.chunks\<close>, so a write to it is a write to
  the buffer.
\<close>

definition getChunk :: "nat \<Rightarrow> BitBuf \<Rightarrow> BitBuf" where
  "getChunk index b =
     b\<lparr>chunks := chunks b @ replicate (Suc index - length (chunks b)) (replicate CHUNK_SIZE 0)\<rparr>"

text \<open>
  A typed array ignores a write outside its bounds and reads \<^verbatim>\<open>undefined\<close>
  there (which the shift turns into 0); \<open>xs[i := v]\<close> ignores it too, and the read is
  guarded.
\<close>

definition push :: "nat \<Rightarrow> BitBuf \<Rightarrow> BitBuf" where
  "push bt b =
     (case getCoordinates (length_b b) of (chunkIndex, octetIndex, bitIndex) \<Rightarrow>
        let b1 = getChunk chunkIndex b;
            chunk = chunks b1 ! chunkIndex;
            chunk' = chunk[octetIndex := (chunk ! octetIndex) OR push_bit bitIndex (of_nat (bt AND 1))]
        in b1\<lparr>chunks := (chunks b1)[chunkIndex := chunk'], length_b := length_b b + 1\<rparr>)"

definition get :: "nat \<Rightarrow> BitBuf \<Rightarrow> nat result \<times> BitBuf" where
  "get index b =
     (if index + 1 > length_b b then (Inl IndexError, b)
      else case getCoordinates index of (chunkIndex, octetIndex, bitIndex) \<Rightarrow>
        let b1 = getChunk chunkIndex b;
            chunk = chunks b1 ! chunkIndex
        in (Inr (if octetIndex < length chunk
                 then unat (drop_bit bitIndex (chunk ! octetIndex) AND 1) else 0), b1))"

definition writeOctet :: "nat \<Rightarrow> BitBuf \<Rightarrow> BitBuf" where
  "writeOctet octet b = fold (\<lambda>i. push (drop_bit i octet)) [0..<OCTET_SIZE] b"

function readOctet_loop :: "nat \<Rightarrow> nat \<Rightarrow> BitBuf \<Rightarrow> nat result \<times> BitBuf" where
  "readOctet_loop i octet b =
     (if i < OCTET_SIZE
      then case get (pos b + i) b of
             (Inl e, b') \<Rightarrow> (Inl e, b')
           | (Inr v, b') \<Rightarrow> readOctet_loop (i + 1) (octet OR push_bit i v) b'
      else (Inr octet, b\<lparr>pos := pos b + OCTET_SIZE\<rparr>))"
  by pat_completeness auto
termination
  by (relation "measure (\<lambda>(i, octet, b). OCTET_SIZE - i)") auto

definition readOctet :: "BitBuf \<Rightarrow> nat result \<times> BitBuf" where
  "readOctet b = readOctet_loop 0 0 b"

definition readBit :: "BitBuf \<Rightarrow> nat result \<times> BitBuf" where
  "readBit b =
     (case get (pos b) b of
        (Inl e, b') \<Rightarrow> (Inl e, b')
      | (Inr octet, b') \<Rightarrow> (Inr octet, b'\<lparr>pos := pos b' + 1\<rparr>))"

definition hasMore :: "BitBuf \<Rightarrow> bool" where
  "hasMore b = (pos b < length_b b)"

text \<open>
  What the buffer holds: \<open>bit_at b i\<close> is the bit that \<^verbatim>\<open>get\<close> computes
  at index \<open>i\<close>, without the range check. \<open>covered\<close> says that chunks have been
  allocated for every written bit; \<open>BitBuf_inv\<close> adds what \<^verbatim>\<open>push\<close> relies
  on when it ORs a bit in: full-size chunks, and zeros from \<open>length_b\<close> on. The
  constructor establishes both and \<^verbatim>\<open>push\<close> keeps them (shown below).
\<close>

definition bit_at :: "BitBuf \<Rightarrow> nat \<Rightarrow> nat" where
  "bit_at b index =
     (case getCoordinates index of (chunkIndex, octetIndex, bitIndex) \<Rightarrow>
        let chunk = chunks b ! chunkIndex
        in if octetIndex < length chunk
           then unat (drop_bit bitIndex (chunk ! octetIndex) AND 1) else 0)"

definition covered :: "BitBuf \<Rightarrow> bool" where
  "covered b = (length_b b \<le> CHUNK_SIZE * OCTET_SIZE * length (chunks b))"

definition BitBuf_inv :: "BitBuf \<Rightarrow> bool" where
  "BitBuf_inv b =
     (covered b \<and> (\<forall>c \<in> set (chunks b). length c = CHUNK_SIZE) \<and>
      (\<forall>i. length_b b \<le> i \<and> i < CHUNK_SIZE * OCTET_SIZE * length (chunks b)
          \<longrightarrow> bit_at b i = 0))"

text \<open>The bits written so far, in order, and the part of them not yet read.\<close>

definition content :: "BitBuf \<Rightarrow> nat list" where
  "content b = map (bit_at b) [0..<length_b b]"

definition unread :: "BitBuf \<Rightarrow> nat list" where
  "unread b = drop (pos b) (content b)"

text \<open>The second half of \<^verbatim>\<open>push\<close>, after the chunk has been fetched.\<close>

definition store_bit :: "nat \<Rightarrow> BitBuf \<Rightarrow> BitBuf" where
  "store_bit x c =
     c\<lparr>chunks := (chunks c)[length_b c div 8 div 1024 :=
          (chunks c ! (length_b c div 8 div 1024))[length_b c div 8 mod 1024 :=
             (chunks c ! (length_b c div 8 div 1024) ! (length_b c div 8 mod 1024))
               OR push_bit (length_b c mod 8) (of_nat (x AND 1))]],
       length_b := length_b c + 1\<rparr>"

text \<open>The eight bits of an octet in the order \<^verbatim>\<open>writeOctet\<close> pushes them.\<close>

definition octet_bits :: "nat \<Rightarrow> nat list" where
  "octet_bits v = map (\<lambda>i. drop_bit i v mod 2) [0..<8]"

text \<open>
  The octet that \<^verbatim>\<open>readOctet\<close>'s loop assembles from the bits at \<open>p + i\<close>,
  \<open>p + i + 1\<close>, ..., \<open>p + 7\<close>, starting from the accumulator \<open>acc\<close>.
\<close>

definition octet_at :: "BitBuf \<Rightarrow> nat \<Rightarrow> nat \<Rightarrow> nat \<Rightarrow> nat" where
  "octet_at b p i acc = fold (\<lambda>j a. a OR push_bit j (bit_at b (p + j))) [i..<8] acc"

subsection \<open>Strings in the buffer\<close>

text \<open>
  A string is a \<open>char list\<close>: its characters are octets, \<open>of_char\<close> gives the
  character code and \<open>char_of\<close> the character of a code. JavaScript strings with
  code units above 255 have no counterpart here.

  Modelled from the spec: \<^verbatim>\<open>BitBuf.writeString\<close> and \<^verbatim>\<open>BitBuf.readString\<close>,
  which src/unnamed/part_000 calls (\<^verbatim>\<open>StringEater.dump\<close>, \<^verbatim>\<open>Node.serialize\<close>,
  \<^verbatim>\<open>Node.unserialize\<close>) and src/bitbuf.js does not define. The spec: write each
  character of the string as one octet, with no terminator; read octets until one equals
  the delimiter's octet value, and return the decoded string with the delimiter consumed
  but excluded.
\<close>

definition writeString :: "string \<Rightarrow> BitBuf \<Rightarrow> BitBuf" where
  "writeString s b = fold (\<lambda>c. writeOctet (of_char c)) s b"

function readString_loop :: "nat \<Rightarrow> nat list \<Rightarrow> BitBuf \<Rightarrow> string result \<times> BitBuf" where
  "readString_loop delimiter data b =
     (case readOctet b of
        (Inl e, b') \<Rightarrow> (Inl e, b')
      | (Inr octet, b') \<Rightarrow>
          if octet = delimiter then (Inr (map char_of data), b')
          else readString_loop delimiter (data @ [octet]) b')"
  by pat_completeness auto
termination
proof (relation "measure (\<lambda>(delimiter, data, b). length_b b - pos b)", goal_cases)
  case 1
  show ?case by simp
next
  case (2 delimiter data b x b' octet)
  have get_same: "length_b c' = length_b c \<and> pos c' = pos c \<and> j < length_b c"
    if "get j c = (Inr v, c')" for j c v c'
    using that by (auto simp add: get_def getChunk_def Let_def split: if_splits prod.splits)
  have loop: "pos c' = pos c + OCTET_SIZE \<and> length_b c' = length_b c
      \<and> (i < OCTET_SIZE \<longrightarrow> pos c + OCTET_SIZE \<le> length_b c)"
    if "readOctet_loop i acc c = (Inr v, c')" "i \<le> OCTET_SIZE" for i acc c v c'
    using that
  proof (induction i acc c rule: readOctet_loop.induct)
    case (1 i octet b)
    show ?case
    proof (cases "i < OCTET_SIZE")
      case True
      then obtain w b1 where g: "get (pos b + i) b = (Inr w, b1)"
        and r: "readOctet_loop (i + 1) (octet OR push_bit i w) b1 = (Inr v, c')"
        using "1.prems"(1) by (auto split: prod.splits sum.splits)
      have s: "length_b b1 = length_b b" "pos b1 = pos b" "pos b + i < length_b b"
        using get_same [OF g] by simp_all
      have "pos c' = pos b1 + OCTET_SIZE \<and> length_b c' = length_b b1
          \<and> (i + 1 < OCTET_SIZE \<longrightarrow> pos b1 + OCTET_SIZE \<le> length_b b1)"
        using "1.IH" [OF True g [symmetric] refl r] True by simp
      then show ?thesis
        using s True by (cases "i + 1 < OCTET_SIZE") auto
    next
      case False
      then show ?thesis
        using "1.prems" by auto
    qed
  qed
  have "readOctet b = (Inr octet, b')"
    using 2 by simp
  then have "pos b' = pos b + OCTET_SIZE \<and> length_b b' = length_b b \<and> pos b + OCTET_SIZE \<le> length_b b"
    using loop [of 0 0 b octet b'] by (simp add: readOctet_def OCTET_SIZE_def)
  then show ?case
    by (auto simp add: OCTET_SIZE_def)
qed

definition readString :: "nat \<Rightarrow> BitBuf \<Rightarrow> string result \<times> BitBuf" where
  "readString delimiter b = readString_loop delimiter [] b"


section \<open>The Huffman coder (puffman.js and utils.js, in src/unnamed/part_000)\<close>

definition NULL_NODE :: nat where
  "NULL_NODE = 0"

definition NULL_TOKEN :: nat where
  "NULL_TOKEN = 0x01"

definition SPLIT :: nat where
  "SPLIT = 0x03"

text \<open>
  A \<^verbatim>\<open>Node\<close> object: two children that may be \<^verbatim>\<open>null\<close>, a token that may be
  \<^verbatim>\<open>null\<close>, and the occurrence counter. \<open>Node_new\<close> is the constructor.
\<close>

datatype node =
  Node (left: "node option") (right: "node option") (token: "string option") (occurrences: nat)

definition Node_new :: "string option \<Rightarrow> nat \<Rightarrow> node" where
  "Node_new tok occ = Node None None tok occ"

fun buildString :: "node option \<Rightarrow> BitBuf \<Rightarrow> BitBuf" where
  "buildString None b = writeOctet SPLIT (writeOctet NULL_NODE b)"
| "buildString (Some (Node l r tok occ)) b =
     (let b1 = (case tok of None \<Rightarrow> writeOctet NULL_TOKEN b | Some t \<Rightarrow> writeString t b);
          b2 = writeOctet SPLIT b1
      in buildString r (buildString l b2))"

definition serialize :: "node \<Rightarrow> BitBuf \<Rightarrow> BitBuf" where
  "serialize n b = buildString (Some n) b"

text \<open>
  \<^verbatim>\<open>val.charCodeAt(i)\<close> is \<^verbatim>\<open>NaN\<close> outside the string (here \<open>None\<close>), and
  \<^verbatim>\<open>NaN\<close> is different from every number.
\<close>

definition charCodeAt :: "string \<Rightarrow> nat \<Rightarrow> nat option" where
  "charCodeAt s i = (if i < length s then Some (of_char (s ! i)) else None)"

text \<open>
  The recursive \<^verbatim>\<open>buildTree\<close> inside \<^verbatim>\<open>Node.unserialize\<close>. Its recursion
  follows the stream, not a data structure, so the model bounds the recursion depth by
  a counter; \<open>unserialize\<close> starts it above the number of unread bits, and every call
  that goes on to recurse has consumed at least one octet.
\<close>

fun unserialize_buildTree :: "nat \<Rightarrow> BitBuf \<Rightarrow> node option result \<times> BitBuf" where
  "unserialize_buildTree 0 b = (Inl OutOfFuel, b)"
| "unserialize_buildTree (Suc n) b =
     (case readString SPLIT b of
        (Inl e, b1) \<Rightarrow> (Inl e, b1)
      | (Inr val, b1) \<Rightarrow>
          if charCodeAt val 0 = Some NULL_NODE then (Inr None, b1)
          else
            let tok = (if charCodeAt val 0 \<noteq> Some NULL_TOKEN then Some val else None)
            in case unserialize_buildTree n b1 of
                 (Inl e, b2) \<Rightarrow> (Inl e, b2)
               | (Inr l, b2) \<Rightarrow>
                   (case unserialize_buildTree n b2 of
                      (Inl e, b3) \<Rightarrow> (Inl e, b3)
                    | (Inr r, b3) \<Rightarrow> (Inr (Some (Node l r tok 0)), b3)))"

definition unserialize :: "BitBuf \<Rightarrow> node option result \<times> BitBuf" where
  "unserialize b = unserialize_buildTree (Suc (length_b b - pos b)) b"

text \<open>
  The \<^verbatim>\<open>Puffman\<close> object. \<^verbatim>\<open>tokenOccurrences\<close> is a JavaScript object used as
  a dictionary whose key order matters (it is the order of the leaves before the first
  sort): an association list in insertion order. \<^verbatim>\<open>mapToBin\<close> is only looked up:
  a map. Tokens are taken not to be names that every JavaScript object inherits
  (\<^verbatim>\<open>constructor\<close>, \<^verbatim>\<open>toString\<close>, ...), for which the test against
  \<^verbatim>\<open>undefined\<close> in \<^verbatim>\<open>see\<close> does not mean "absent".
\<close>

record Puffman =
  tokenOccurrences :: "(string \<times> nat) list"
  tree :: "node option"
  mapToBin :: "string \<rightharpoonup> string"

definition Puffman_new :: Puffman where
  "Puffman_new = \<lparr>tokenOccurrences = [], tree = None, mapToBin = Map.empty\<rparr>"

fun see_entries :: "string \<Rightarrow> (string \<times> nat) list \<Rightarrow> (string \<times> nat) list" where
  "see_entries tok [] = [(tok, 0 + 1)]"
| "see_entries tok ((k, n) # rest) =
     (if k = tok then (k, n + 1) # rest else (k, n) # see_entries tok rest)"

definition see :: "string \<Rightarrow> Puffman \<Rightarrow> Puffman" where
  "see tok p = p\<lparr>tokenOccurrences := see_entries tok (tokenOccurrences p)\<rparr>"

text \<open>
  \<^verbatim>\<open>items\<close> (utils.js) yields the entries in the order of \<^verbatim>\<open>Object.keys\<close>:
  keys that are array indices (canonical decimal numerals below \<open>2^32 - 1\<close>) first, in
  ascending numeric order, then all other keys in insertion order.
\<close>

definition is_digit :: "char \<Rightarrow> bool" where
  "is_digit c = (48 \<le> (of_char c :: nat) \<and> (of_char c :: nat) \<le> 57)"

definition index_val :: "string \<Rightarrow> nat" where
  "index_val s = foldl (\<lambda>n c. 10 * n + (of_char c - 48)) 0 s"

definition is_array_index :: "string \<Rightarrow> bool" where
  "is_array_index s =
     (s \<noteq> [] \<and> list_all is_digit s \<and> (length s = 1 \<or> hd s \<noteq> CHR ''0'')
      \<and> index_val s < 2 ^ 32 - 1)"

definition items :: "(string \<times> nat) list \<Rightarrow> (string \<times> nat) list" where
  "items obj =
     sort_key (\<lambda>e. index_val (fst e)) (filter (\<lambda>e. is_array_index (fst e)) obj)
     @ filter (\<lambda>e. \<not> is_array_index (fst e)) obj"

text \<open>
  \<^verbatim>\<open>base.sort((a, b) => b.occurrences - a.occurrences)\<close>: descending by occurrences;
  \<^verbatim>\<open>Array.prototype.sort\<close> is stable, and so is \<open>sort_key\<close>.
\<close>

definition sort_base :: "node list \<Rightarrow> node list" where
  "sort_base base = sort_key (\<lambda>n. - int (occurrences n)) base"

function buildTree_loop :: "node list \<Rightarrow> node list" where
  "buildTree_loop base =
     (if length base > 1
      then let base1 = sort_base base;
               l = last base1;
               base2 = butlast base1;
               r = last base2;
               base3 = butlast base2;
               n = Node (Some l) (Some r) None (0 + occurrences l + occurrences r)
           in buildTree_loop (base3 @ [n])
      else base)"
  by pat_completeness auto
termination
  by (relation "measure length") (auto simp add: sort_base_def)

text \<open>\<^verbatim>\<open>base[0]\<close> of an empty array is \<^verbatim>\<open>undefined\<close>: no tree.\<close>

definition buildTree :: "Puffman \<Rightarrow> Puffman" where
  "buildTree p =
     (let base = map (\<lambda>(tok, occ). Node_new (Some tok) occ) (items (tokenOccurrences p))
      in p\<lparr>tree := (case buildTree_loop base of [] \<Rightarrow> None | n # _ \<Rightarrow> Some n)\<rparr>)"

text \<open>Reading \<^verbatim>\<open>node.token\<close> of \<^verbatim>\<open>null\<close> or \<^verbatim>\<open>undefined\<close> is a TypeError.\<close>

fun walk :: "node option \<Rightarrow> string \<Rightarrow> (string \<rightharpoonup> string) \<Rightarrow> (string \<rightharpoonup> string) result" where
  "walk None pre m = Inl TypeError"
| "walk (Some (Node l r tok occ)) pre m =
     (case tok of
        Some t \<Rightarrow> Inr (m(t \<mapsto> pre))
      | None \<Rightarrow>
          (case walk l (pre @ ''0'') m of
             Inl e \<Rightarrow> Inl e
           | Inr m1 \<Rightarrow> walk r (pre @ ''1'') m1))"

definition buildMapToBin :: "Puffman \<Rightarrow> Puffman result" where
  "buildMapToBin p =
     (case walk (tree p) [] (mapToBin p) of
        Inl e \<Rightarrow> Inl e
      | Inr m \<Rightarrow> Inr (p\<lparr>mapToBin := m\<rparr>))"

text \<open>
  \<^verbatim>\<open>findToken(next)\<close>: \<open>next\<close> is the callback that yields the next bit, a step on
  the state \<open>'s\<close> of the bit source that may fail. The loop pulls a bit, moves to a child
  and only then looks at the token; the node it moves from is \<^verbatim>\<open>this.tree\<close> at
  first.
\<close>

function findToken_loop :: "('s \<Rightarrow> nat result \<times> 's) \<Rightarrow> node option \<Rightarrow> 's \<Rightarrow> string result \<times> 's" where
  "findToken_loop next None s =
     (case next s of
        (Inl e, s') \<Rightarrow> (Inl e, s')
      | (Inr dir, s') \<Rightarrow> (Inl TypeError, s'))"
| "findToken_loop next (Some (Node l r tok occ)) s =
     (case next s of
        (Inl e, s') \<Rightarrow> (Inl e, s')
      | (Inr dir, s') \<Rightarrow>
          (case (if dir \<noteq> 0 then r else l) of
             None \<Rightarrow> (Inl TypeError, s')
           | Some child \<Rightarrow>
               (case token child of
                  Some t \<Rightarrow> (Inr t, s')
                | None \<Rightarrow> findToken_loop next (Some child) s')))"
  by pat_completeness auto
termination
  by (relation "measure (\<lambda>(next, nd, s). size_option size nd)") (auto split: if_splits)

definition findToken :: "('s \<Rightarrow> nat result \<times> 's) \<Rightarrow> Puffman \<Rightarrow> 's \<Rightarrow> string result \<times> 's" where
  "findToken next p s = findToken_loop next (tree p) s"

section \<open>The stylesheet codec (css-eater.js, in src/unnamed/part_000)\<close>

text \<open>
  The escape token: the JavaScript literal \<^verbatim>\<open>'\e'\<close> is the one-character string
  \<^verbatim>\<open>e\<close>, since \<^verbatim>\<open>\e\<close> is not an escape sequence of the language.
\<close>

definition ESC :: string where
  "ESC = ''e''"

definition NL :: string where
  "NL = [CHR 0x0A]"

subsection \<open>Eaters\<close>

text \<open>
  \<^verbatim>\<open>new Buffer(data).toString()\<close> decodes the octets as UTF-8, which maps every
  ASCII octet to the character with that code; a string being a list of octets here,
  the decoding is \<open>map char_of\<close>. (On octets above \<open>0x7F\<close> the library combines or
  replaces octets; the model does not follow it there.)
\<close>

definition Buffer_toString :: "nat list \<Rightarrow> string" where
  "Buffer_toString data = map char_of data"

function StringEater_eat_loop :: "nat list \<Rightarrow> BitBuf \<Rightarrow> string result \<times> BitBuf" where
  "StringEater_eat_loop data b =
     (case readOctet b of
        (Inl e, b') \<Rightarrow> (Inl e, b')
      | (Inr octet, b') \<Rightarrow>
          if octet \<noteq> 0 then StringEater_eat_loop (data @ [octet]) b'
          else (Inr (Buffer_toString data), b'))"
  by pat_completeness auto
termination
proof (relation "measure (\<lambda>(data, b). length_b b - pos b)", goal_cases)
  case 1
  show ?case by simp
next
  case (2 data b x b' octet)
  have get_same: "length_b c' = length_b c \<and> pos c' = pos c \<and> j < length_b c"
    if "get j c = (Inr v, c')" for j c v c'
    using that by (auto simp add: get_def getChunk_def Let_def split: if_splits prod.splits)
  have loop: "pos c' = pos c + OCTET_SIZE \<and> length_b c' = length_b c
      \<and> (i < OCTET_SIZE \<longrightarrow> pos c + OCTET_SIZE \<le> length_b c)"
    if "readOctet_loop i acc c = (Inr v, c')" "i \<le> OCTET_SIZE" for i acc c v c'
    using that
  proof (induction i acc c rule: readOctet_loop.induct)
    case (1 i octet b)
    show ?case
    proof (cases "i < OCTET_SIZE")
      case True
      then obtain w b1 where g: "get (pos b + i) b = (Inr w, b1)"
        and r: "readOctet_loop (i + 1) (octet OR push_bit i w) b1 = (Inr v, c')"
        using "1.prems"(1) by (auto split: prod.splits sum.splits)
      have s: "length_b b1 = length_b b" "pos b1 = pos b" "pos b + i < length_b b"
        using get_same [OF g] by simp_all
      have "pos c' = pos b1 + OCTET_SIZE \<and> length_b c' = length_b b1
          \<and> (i + 1 < OCTET_SIZE \<longrightarrow> pos b1 + OCTET_SIZE \<le> length_b b1)"
        using "1.IH" [OF True g [symmetric] refl r] True by simp
      then show ?thesis
        using s True by (cases "i + 1 < OCTET_SIZE") auto
    next
      case False
      then show ?thesis
        using "1.prems" by auto
    qed
  qed
  have "readOctet b = (Inr octet, b')"
    using 2 by simp
  then have "pos b' = pos b + OCTET_SIZE \<and> length_b b' = length_b b \<and> pos b + OCTET_SIZE \<le> length_b b"
    using loop [of 0 0 b octet b'] by (simp add: readOctet_def OCTET_SIZE_def)
  then show ?case
    by (auto simp add: OCTET_SIZE_def)
qed

definition StringEater_eat :: "BitBuf \<Rightarrow> string result \<times> BitBuf" where
  "StringEater_eat b = StringEater_eat_loop [] b"

definition StringEater_dump :: "string \<Rightarrow> BitBuf \<Rightarrow> BitBuf" where
  "StringEater_dump s b = writeOctet 0 (writeString s b)"

definition BlockType_eat :: "BitBuf \<Rightarrow> string result \<times> BitBuf" where
  "BlockType_eat b =
     (case readBit b of
        (Inl e, b') \<Rightarrow> (Inl e, b')
      | (Inr b1, b') \<Rightarrow>
          (case readBit b' of
             (Inl e, b'') \<Rightarrow> (Inl e, b'')
           | (Inr b2, b'') \<Rightarrow>
               (if b1 \<noteq> 0 then Inr ''end'' else if b2 \<noteq> 0 then Inr ''media'' else Inr ''raw'', b'')))"

definition BlockType_dump :: "string \<Rightarrow> BitBuf \<Rightarrow> BitBuf" where
  "BlockType_dump type b =
     (let b1 = (if type = ''end'' then push 1 b else push 0 b)
      in if type = ''media'' then push 1 b1 else push 0 b1)"

subsection \<open>The stylesheet tree and its blocks\<close>

text \<open>
  The tree comes from the \<^verbatim>\<open>css\<close> parser. Of a declaration-list entry the codec
  reads \<^verbatim>\<open>type\<close>, \<^verbatim>\<open>property\<close> and \<^verbatim>\<open>value\<close>; of a rule,
  \<^verbatim>\<open>selectors\<close> and \<^verbatim>\<open>declarations\<close>, either of which is \<^verbatim>\<open>undefined\<close>
  (\<open>None\<close>) on the nodes that the parser builds for comments and nested at-rules. A
  top-level node is a rule, a media node, or anything else; of anything else only the
  text that \<^verbatim>\<open>css.stringify\<close> (an external library) makes of it matters, and the
  node carries that text.
\<close>

datatype decl = Declaration string string | NoDeclaration

record css_rule =
  selectors :: "string list option"
  declarations :: "decl list option"

datatype ast_node = RuleNode css_rule | MediaNode string "css_rule list" | OtherNode string

text \<open>
  A block of \<^verbatim>\<open>groupBlocks\<close> is a synthetic media block, a media node of the tree
  itself (pushed by reference: \<open>origin\<close> is its index in the tree), or a raw block. When
  the latest block is a media node of the tree with an empty query, the rule is pushed
  onto the node's own rule array: \<^verbatim>\<open>groupBlocks\<close> then changes the tree, and the
  model returns the tree with the blocks.
\<close>

datatype block =
  MediaBlock (origin: "nat option") (media: string) (rules: "css_rule list")
| RawBlock (contents: string)

fun groupBlocks_loop ::
  "nat \<Rightarrow> ast_node list \<Rightarrow> block list \<Rightarrow> ast_node list \<Rightarrow> block list \<times> ast_node list" where
  "groupBlocks_loop i [] blocks ast = (blocks, ast)"
| "groupBlocks_loop i (RuleNode r # rest) blocks ast =
     (case (if blocks = [] then None else Some (last blocks)) of
        Some (MediaBlock org m rs) \<Rightarrow>
          if m = [] then
            groupBlocks_loop (i + 1) rest (butlast blocks @ [MediaBlock org m (rs @ [r])])
              (case org of None \<Rightarrow> ast | Some k \<Rightarrow> ast[k := MediaNode m (rs @ [r])])
          else groupBlocks_loop (i + 1) rest (blocks @ [MediaBlock None [] [r]]) ast
      | _ \<Rightarrow> groupBlocks_loop (i + 1) rest (blocks @ [MediaBlock None [] [r]]) ast)"
| "groupBlocks_loop i (MediaNode m rs # rest) blocks ast =
     groupBlocks_loop (i + 1) rest (blocks @ [MediaBlock (Some i) m rs]) ast"
| "groupBlocks_loop i (OtherNode text # rest) blocks ast =
     (if text \<noteq> [] then groupBlocks_loop (i + 1) rest (blocks @ [RawBlock text]) ast
      else groupBlocks_loop (i + 1) rest blocks ast)"

definition groupBlocks :: "ast_node list \<Rightarrow> block list \<times> ast_node list" where
  "groupBlocks ast = groupBlocks_loop 0 ast [] ast"

subsection \<open>The property eater\<close>

fun see_declarations :: "decl list \<Rightarrow> Puffman \<Rightarrow> Puffman" where
  "see_declarations [] p = p"
| "see_declarations (Declaration property v # ds) p = see_declarations ds (see property p)"
| "see_declarations (NoDeclaration # ds) p = see_declarations ds p"

fun see_rules :: "css_rule list \<Rightarrow> Puffman \<Rightarrow> Puffman result" where
  "see_rules [] p = Inr p"
| "see_rules (r # rs) p =
     (case declarations r of
        None \<Rightarrow> Inl TypeError
      | Some ds \<Rightarrow> see_rules rs (see ESC (see_declarations ds p)))"

fun see_blocks :: "block list \<Rightarrow> Puffman \<Rightarrow> Puffman result" where
  "see_blocks [] p = Inr p"
| "see_blocks (MediaBlock org m rs # bs) p =
     (case see_rules rs p of Inl e \<Rightarrow> Inl e | Inr p' \<Rightarrow> see_blocks bs p')"
| "see_blocks (RawBlock text # bs) p = see_blocks bs p"

definition loadFromAst :: "ast_node list \<Rightarrow> Puffman \<Rightarrow> Puffman result \<times> ast_node list" where
  "loadFromAst ast p =
     (case groupBlocks ast of (blocks, ast') \<Rightarrow>
        (case see_blocks blocks p of
           Inl e \<Rightarrow> (Inl e, ast')
         | Inr p' \<Rightarrow> (buildMapToBin (buildTree p'), ast')))"

definition loadFromPreamble :: "Puffman \<Rightarrow> BitBuf \<Rightarrow> Puffman result \<times> BitBuf" where
  "loadFromPreamble p b =
     (case unserialize b of
        (Inl e, b') \<Rightarrow> (Inl e, b')
      | (Inr t, b') \<Rightarrow> (Inr (p\<lparr>tree := t\<rparr>), b'))"

definition serializePreamble :: "Puffman \<Rightarrow> BitBuf \<Rightarrow> BitBuf result" where
  "serializePreamble p b =
     (case tree p of None \<Rightarrow> Inl TypeError | Some n \<Rightarrow> Inr (serialize n b))"

text \<open>Iterating over \<^verbatim>\<open>undefined\<close>, the code of an unobserved token, is a TypeError.\<close>

definition Prop_dump :: "Puffman \<Rightarrow> string \<Rightarrow> BitBuf \<Rightarrow> BitBuf result" where
  "Prop_dump p tok b =
     (case mapToBin p tok of
        None \<Rightarrow> Inl TypeError
      | Some bin \<Rightarrow> Inr (fold (\<lambda>c. push (if c = CHR ''1'' then 1 else 0)) bin b))"

definition Prop_eat :: "Puffman \<Rightarrow> BitBuf \<Rightarrow> string result \<times> BitBuf" where
  "Prop_eat p b = findToken readBit p b"

subsection \<open>dump\<close>

fun dump_declarations :: "Puffman \<Rightarrow> decl list \<Rightarrow> BitBuf \<Rightarrow> BitBuf result" where
  "dump_declarations p [] b = Inr b"
| "dump_declarations p (Declaration property v # ds) b =
     (case Prop_dump p property b of
        Inl e \<Rightarrow> Inl e
      | Inr b1 \<Rightarrow> dump_declarations p ds (StringEater_dump v b1))"
| "dump_declarations p (NoDeclaration # ds) b = dump_declarations p ds b"

fun dump_rules :: "Puffman \<Rightarrow> css_rule list \<Rightarrow> BitBuf \<Rightarrow> BitBuf result" where
  "dump_rules p [] b = Inr b"
| "dump_rules p (r # rs) b =
     (case selectors r of
        None \<Rightarrow> Inl TypeError
      | Some sels \<Rightarrow>
          let b1 = fold StringEater_dump sels b;
              b2 = StringEater_dump ESC b1
          in case declarations r of
               None \<Rightarrow> Inl TypeError
             | Some ds \<Rightarrow>
                 (case dump_declarations p ds b2 of
                    Inl e \<Rightarrow> Inl e
                  | Inr b3 \<Rightarrow>
                      (case Prop_dump p ESC b3 of
                         Inl e \<Rightarrow> Inl e
                       | Inr b4 \<Rightarrow> dump_rules p rs b4)))"

fun dump_blocks :: "Puffman \<Rightarrow> block list \<Rightarrow> BitBuf \<Rightarrow> BitBuf result" where
  "dump_blocks p [] b = Inr b"
| "dump_blocks p (MediaBlock org m rs # bs) b =
     (let b1 = BlockType_dump ''media'' b;
          b2 = StringEater_dump m b1
      in case dump_rules p rs b2 of
           Inl e \<Rightarrow> Inl e
         | Inr b3 \<Rightarrow> dump_blocks p bs (StringEater_dump ESC b3))"
| "dump_blocks p (RawBlock text # bs) b =
     dump_blocks p bs (StringEater_dump text (BlockType_dump ''raw'' b))"

text \<open>
  \<^verbatim>\<open>dump({ast, bitbuf})\<close>: the result is the filled buffer, or the error thrown on
  the way, together with the tree as the two calls of \<^verbatim>\<open>groupBlocks\<close> leave it.
\<close>

definition dump :: "ast_node list \<Rightarrow> BitBuf \<Rightarrow> BitBuf result \<times> ast_node list" where
  "dump ast b =
     (case loadFromAst ast Puffman_new of
        (Inl e, ast1) \<Rightarrow> (Inl e, ast1)
      | (Inr p, ast1) \<Rightarrow>
          (case serializePreamble p b of
             Inl e \<Rightarrow> (Inl e, ast1)
           | Inr b1 \<Rightarrow>
               (case groupBlocks ast1 of (blocks, ast2) \<Rightarrow>
                  (case dump_blocks p blocks b1 of
                     Inl e \<Rightarrow> (Inl e, ast2)
                   | Inr b2 \<Rightarrow> (Inr (BlockType_dump ''end'' b2), ast2)))))"

subsection \<open>restore\<close>

text \<open>\<^verbatim>\<open>Array.prototype.join\<close> on strings.\<close>

fun join_str :: "string \<Rightarrow> string list \<Rightarrow> string" where
  "join_str sep [] = []"
| "join_str sep [x] = x"
| "join_str sep (x # y # ys) = x @ sep @ join_str sep (y # ys)"

definition render_rule :: "string list \<Rightarrow> (string \<times> string) list \<Rightarrow> string" where
  "render_rule sels props =
     join_str ('','' @ NL) sels @ '' {'' @ NL
     @ join_str ('';'' @ NL) (map (\<lambda>(p, v). ''  '' @ p @ '': '' @ v) props) @ '';''
     @ NL @ ''}''"

definition render_media :: "string \<Rightarrow> string list \<Rightarrow> string" where
  "render_media m rs =
     (let out = [];
          out1 = (if m \<noteq> [] then out @ ''@media '' @ m @ '' {'' @ NL else out);
          out2 = out1 @ join_str (NL @ NL) rs
      in if m \<noteq> [] then out2 @ NL @ ''}'' @ NL else out2)"

text \<open>
  The loops of \<^verbatim>\<open>restore\<close> run until the stream says stop. Each round of each
  loop that goes on has read at least one bit, so the model gives every loop a round
  counter, which \<open>restore\<close> starts above the number of unread bits.
\<close>

fun selectors_loop :: "nat \<Rightarrow> string list \<Rightarrow> BitBuf \<Rightarrow> string list result \<times> BitBuf" where
  "selectors_loop 0 sels b = (Inl OutOfFuel, b)"
| "selectors_loop (Suc n) sels b =
     (case StringEater_eat b of
        (Inl e, b') \<Rightarrow> (Inl e, b')
      | (Inr sel, b') \<Rightarrow>
          if sel \<noteq> ESC then selectors_loop n (sels @ [sel]) b' else (Inr sels, b'))"

fun props_loop ::
  "nat \<Rightarrow> Puffman \<Rightarrow> (string \<times> string) list \<Rightarrow> BitBuf \<Rightarrow> (string \<times> string) list result \<times> BitBuf" where
  "props_loop 0 pf props b = (Inl OutOfFuel, b)"
| "props_loop (Suc n) pf props b =
     (case Prop_eat pf b of
        (Inl e, b') \<Rightarrow> (Inl e, b')
      | (Inr p, b') \<Rightarrow>
          if p \<noteq> ESC then
            (case StringEater_eat b' of
               (Inl e, b'') \<Rightarrow> (Inl e, b'')
             | (Inr v, b'') \<Rightarrow> props_loop n pf (props @ [(p, v)]) b'')
          else (Inr props, b'))"

fun rules_loop :: "nat \<Rightarrow> nat \<Rightarrow> Puffman \<Rightarrow> string list \<Rightarrow> BitBuf \<Rightarrow> string list result \<times> BitBuf" where
  "rules_loop 0 fuel pf rs b = (Inl OutOfFuel, b)"
| "rules_loop (Suc n) fuel pf rs b =
     (case selectors_loop fuel [] b of
        (Inl e, b1) \<Rightarrow> (Inl e, b1)
      | (Inr sels, b1) \<Rightarrow>
          if length sels = 0 then (Inr rs, b1)
          else
            (case props_loop fuel pf [] b1 of
               (Inl e, b2) \<Rightarrow> (Inl e, b2)
             | (Inr props, b2) \<Rightarrow> rules_loop n fuel pf (rs @ [render_rule sels props]) b2))"

fun blocks_loop :: "nat \<Rightarrow> nat \<Rightarrow> Puffman \<Rightarrow> string list \<Rightarrow> BitBuf \<Rightarrow> string list result \<times> BitBuf" where
  "blocks_loop 0 fuel pf blocks b = (Inl OutOfFuel, b)"
| "blocks_loop (Suc n) fuel pf blocks b =
     (if hasMore b then
        (case BlockType_eat b of
           (Inl e, b1) \<Rightarrow> (Inl e, b1)
         | (Inr type, b1) \<Rightarrow>
             if type = ''media'' then
               (case StringEater_eat b1 of
                  (Inl e, b2) \<Rightarrow> (Inl e, b2)
                | (Inr m, b2) \<Rightarrow>
                    (case rules_loop fuel fuel pf [] b2 of
                       (Inl e, b3) \<Rightarrow> (Inl e, b3)
                     | (Inr rs, b3) \<Rightarrow> blocks_loop n fuel pf (blocks @ [render_media m rs]) b3))
             else if type = ''raw'' then
               (case StringEater_eat b1 of
                  (Inl e, b2) \<Rightarrow> (Inl e, b2)
                | (Inr text, b2) \<Rightarrow> blocks_loop n fuel pf (blocks @ [text]) b2)
             else (Inr blocks, b1))
      else (Inr blocks, b))"

definition restore :: "BitBuf \<Rightarrow> string result \<times> BitBuf" where
  "restore b =
     (case loadFromPreamble Puffman_new b of
        (Inl e, b1) \<Rightarrow> (Inl e, b1)
      | (Inr pf, b1) \<Rightarrow>
          (let fuel = Suc (length_b b1 - pos b1)
           in case blocks_loop fuel fuel pf [] b1 of
                (Inl e, b2) \<Rightarrow> (Inl e, b2)
              | (Inr blocks, b2) \<Rightarrow> (Inr (join_str NL blocks), b2)))"

section \<open>Serialized forms\<close>

text \<open>
  The bits that writing a string, and that \<^verbatim>\<open>Node.serialize\<close>, append to a buffer;
  \<open>forget_occurrences\<close> is a tree with every counter reset, which is all that
  \<^verbatim>\<open>Node.unserialize\<close> can rebuild (it creates every node with \<^verbatim>\<open>new Node()\<close>).
\<close>

definition str_bits :: "string \<Rightarrow> nat list" where
  "str_bits s = concat (map (\<lambda>c. octet_bits (of_char c)) s)"

fun ser_bits :: "node option \<Rightarrow> nat list" where
  "ser_bits None = octet_bits NULL_NODE @ octet_bits SPLIT"
| "ser_bits (Some (Node l r tok occ)) =
     (case tok of None \<Rightarrow> octet_bits NULL_TOKEN | Some t \<Rightarrow> str_bits t)
     @ octet_bits SPLIT @ ser_bits l @ ser_bits r"

fun forget_occurrences :: "node option \<Rightarrow> node option" where
  "forget_occurrences None = None"
| "forget_occurrences (Some (Node l r tok occ)) =
     Some (Node (forget_occurrences l) (forget_occurrences r) tok 0)"

text \<open>
  The trees of claim C3: an internal node has no token and two children, a leaf has no
  children and a non-empty token with none of the reserved octets \<open>0x00\<close>, \<open>0x01\<close>
  and \<open>0x03\<close>.
\<close>

definition plain_token :: "string \<Rightarrow> bool" where
  "plain_token t =
     (t \<noteq> [] \<and> (\<forall>c \<in> set t. (of_char c :: nat) \<noteq> NULL_NODE
        \<and> (of_char c :: nat) \<noteq> NULL_TOKEN \<and> (of_char c :: nat) \<noteq> SPLIT))"

fun huffman_tree :: "node \<Rightarrow> bool" where
  "huffman_tree (Node None None (Some t) occ) = plain_token t"
| "huffman_tree (Node (Some l) (Some r) None occ) = (huffman_tree l \<and> huffman_tree r)"
| "huffman_tree (Node l r tok occ) = False"

text \<open>
  What \<^verbatim>\<open>Node.unserialize\<close> needs of a token to read it back: no octet equal to the
  field terminator, and a first octet that is neither marker. \<open>depth\<close> is the depth of
  the recursion that reads a tree back.
\<close>

fun readable_tokens :: "node option \<Rightarrow> bool" where
  "readable_tokens None = True"
| "readable_tokens (Some (Node l r tok occ)) =
     ((case tok of
         None \<Rightarrow> True
       | Some t \<Rightarrow> (\<forall>c \<in> set t. (of_char c :: nat) \<noteq> SPLIT)
           \<and> charCodeAt t 0 \<noteq> Some NULL_NODE \<and> charCodeAt t 0 \<noteq> Some NULL_TOKEN)
      \<and> readable_tokens l \<and> readable_tokens r)"

fun depth :: "node option \<Rightarrow> nat" where
  "depth None = 0"
| "depth (Some (Node l r tok occ)) = Suc (max (depth l) (depth r))"

section \<open>Codes of a tree\<close>

text \<open>
  \<open>full t\<close>: wherever \<^verbatim>\<open>walk\<close> descends (a node without token) there are two
  children to descend into. \<open>code_pairs t p\<close>: the tokens that \<^verbatim>\<open>walk\<close> reaches
  from \<open>t\<close> with the prefix \<open>p\<close>, each with the bit string accumulated on the way.
  \<open>leaf_tokens\<close>: the tokens alone.
\<close>

fun full :: "node option \<Rightarrow> bool" where
  "full None = False"
| "full (Some (Node l r tok occ)) = (case tok of Some t \<Rightarrow> True | None \<Rightarrow> full l \<and> full r)"

fun code_pairs :: "node option \<Rightarrow> string \<Rightarrow> (string \<times> string) set" where
  "code_pairs None p = {}"
| "code_pairs (Some (Node l r tok occ)) p =
     (case tok of
        Some t \<Rightarrow> {(t, p)}
      | None \<Rightarrow> code_pairs l (p @ ''0'') \<union> code_pairs r (p @ ''1''))"

fun leaf_tokens :: "node option \<Rightarrow> string set" where
  "leaf_tokens None = {}"
| "leaf_tokens (Some (Node l r tok occ)) =
     (case tok of Some t \<Rightarrow> {t} | None \<Rightarrow> leaf_tokens l \<union> leaf_tokens r)"

text \<open>The number that a list of bits, least significant first, stands for.\<close>

definition bits_value :: "nat list \<Rightarrow> nat" where
  "bits_value bs = horner_sum of_bool 2 (map (\<lambda>x. x \<noteq> 0) bs)"

text \<open>
  The stream that \<^verbatim>\<open>dump\<close> writes for the stylesheet of claim C1: the serialized
  tree, the media block with its empty query and its one rule, the end marker.
\<close>

definition scenario_bits :: "nat list" where
  "scenario_bits = [
     1, 0, 0, 0, 0, 0, 0, 0, 1, 1, 0, 0, 0, 0, 0, 0, 1, 0, 1, 0, 0, 1, 1, 0,
     1, 1, 0, 0, 0, 0, 0, 0, 0, 0, 0, 0, 0, 0, 0, 0, 1, 1, 0, 0, 0, 0, 0, 0,
     0, 0, 0, 0, 0, 0, 0, 0, 1, 1, 0, 0, 0, 0, 0, 0, 1, 1, 0, 0, 0, 1, 1, 0,
     1, 1, 1, 1, 0, 1, 1, 0, 0, 0, 1, 1, 0, 1, 1, 0, 1, 1, 1, 1, 0, 1, 1, 0,
     0, 1, 0, 0, 1, 1, 1, 0, 1, 1, 0, 0, 0, 0, 0, 0, 0, 0, 0, 0, 0, 0, 0, 0,
     1, 1, 0, 0, 0, 0, 0, 0, 0, 0, 0, 0, 0, 0, 0, 0, 1, 1, 0, 0, 0, 0, 0, 0,
     0, 1, 0, 0, 0, 0, 0, 0, 0, 0, 1, 0, 0, 0, 0, 1, 1, 0, 0, 0, 0, 0, 0, 0,
     0, 0, 1, 0, 1, 0, 0, 1, 1, 0, 0, 0, 0, 0, 0, 0, 0, 0, 1, 0, 1, 0, 0, 1,
     1, 1, 0, 1, 0, 1, 0, 0, 1, 1, 0, 0, 0, 1, 0, 0, 1, 1, 0, 0, 0, 0, 0, 0,
     0, 0, 0, 0, 1, 0, 1, 0, 0, 1, 1, 0, 0, 0, 0, 0, 0, 0, 0, 0, 1, 0]"

section \<open>Properties of the bit buffer\<close>

lemma getCoordinates_eq:
  "getCoordinates i = (i div 8 div 1024, i div 8 mod 1024, i mod 8)"
proof -
  have c: "i div (1024 * 8) = i div 8 div 1024"
    by (simp add: div_mult2_eq)
  have o: "i div 8 - i div 8 div 1024 * 1024 = i div 8 mod 1024"
    by (simp add: minus_div_mult_eq_mod)
  have "i div 8 = i div 8 div 1024 * 1024 + i div 8 mod 1024"
    by (simp only: div_mult_mod_eq)
  then have "i div 8 * 8 = (i div 8 div 1024 * 1024 + i div 8 mod 1024) * 8"
    by (rule arg_cong)
  then have "i div 8 div 1024 * 1024 * 8 + i div 8 mod 1024 * 8 = i div 8 * 8"
    by (simp only: distrib_right)
  then have b: "i - (i div 8 div 1024 * 1024 * 8 + i div 8 mod 1024 * 8) = i mod 8"
    by (simp add: minus_div_mult_eq_mod)
  show ?thesis
    unfolding getCoordinates_def CHUNK_SIZE_def OCTET_SIZE_def Let_def c o b ..
qed

lemma coords_inj:
  assumes "i div 8 div 1024 = j div 8 div 1024" "i div 8 mod 1024 = j div 8 mod 1024" "i mod 8 = j mod 8"
  shows "i = (j::nat)"
proof -
  have "i div 8 = j div 8"
    using assms(1,2) by (metis div_mult_mod_eq)
  then show ?thesis
    using assms(3) by (metis div_mult_mod_eq)
qed

lemma chunk_index_less: "i < 1024 * 8 * n \<Longrightarrow> i div 8 div 1024 < (n::nat)"
  by (simp add: div_mult2_eq [symmetric] less_mult_imp_div_less mult.commute)

lemma chunk_index_less_iff: "i div 8 div 1024 < (n::nat) \<longleftrightarrow> i < 1024 * 8 * n"
proof -
  have "i div 8 div 1024 = i div 8192" by (simp add: div_mult2_eq [symmetric])
  moreover have "i div 8192 < n \<longleftrightarrow> i < n * 8192"
    by (simp add: div_less_iff_less_mult)
  ultimately show ?thesis by (simp add: mult.commute)
qed


lemma word_bit_val: "unat (drop_bit n (w::8 word) AND 1) = of_bool (bit w n)"
proof -
  have "drop_bit n w AND 1 = drop_bit n w mod 2"
    by (rule and_one_eq)
  also have "\<dots> = of_bool (odd (drop_bit n w))"
    by (rule mod_2_eq_odd)
  also have "\<dots> = of_bool (bit w n)"
    by (simp only: bit_iff_odd_drop_bit)
  finally have e: "drop_bit n w AND 1 = of_bool (bit w n)" .
  show ?thesis unfolding e by (cases "bit w n") simp_all
qed

lemma bit_or_push:
  assumes "k < 8" "n < 8"
  shows "bit ((w::8 word) OR push_bit n (of_nat (x AND 1))) k \<longleftrightarrow> bit w k \<or> (k = n \<and> odd x)"
proof -
  have "(x AND 1) = of_bool (odd x)"
    by (simp only: and_one_eq mod_2_eq_odd)
  then have e: "(of_nat (x AND 1) :: 8 word) = of_bool (odd x)"
    by simp
  show ?thesis
    unfolding e using assms by (cases "odd x") (auto simp add: bit_or_iff bit_push_bit_iff bit_1_iff bit_exp_iff)
qed

lemma bit_at_eq:
  "bit_at b i =
     (if i div 8 mod 1024 < length (chunks b ! (i div 8 div 1024))
      then of_bool (bit (chunks b ! (i div 8 div 1024) ! (i div 8 mod 1024)) (i mod 8)) else 0)"
  by (simp add: bit_at_def getCoordinates_eq word_bit_val Let_def)

lemma covered_eq: "covered b \<longleftrightarrow> length_b b \<le> 1024 * 8 * length (chunks b)"
  by (simp add: covered_def CHUNK_SIZE_def OCTET_SIZE_def)

lemma getChunk_noop: "k < length (chunks b) \<Longrightarrow> getChunk k b = b"
  by (simp add: getChunk_def)

lemma get_ok:
  assumes "covered b" "i < length_b b"
  shows "get i b = (Inr (bit_at b i), b)"
proof -
  have "i < 1024 * 8 * length (chunks b)"
    using assms by (simp add: covered_eq)
  then have "i div 8 div 1024 < length (chunks b)"
    by (rule chunk_index_less)
  then have "getChunk (i div 8 div 1024) b = b"
    by (rule getChunk_noop)
  then show ?thesis
    using assms(2) by (simp add: get_def bit_at_def getCoordinates_eq Let_def)
qed

lemma get_fail: "length_b b \<le> i \<Longrightarrow> get i b = (Inl IndexError, b)"
  by (simp add: get_def)


lemma BitBuf_inv_eq:
  "BitBuf_inv b \<longleftrightarrow>
     length_b b \<le> 1024 * 8 * length (chunks b) \<and> (\<forall>c \<in> set (chunks b). length c = 1024) \<and>
     (\<forall>i. length_b b \<le> i \<and> i < 1024 * 8 * length (chunks b) \<longrightarrow> bit_at b i = 0)"
  by (simp add: BitBuf_inv_def covered_eq) (simp add: CHUNK_SIZE_def OCTET_SIZE_def)

lemma chunks_getChunk:
  "chunks (getChunk k b) = chunks b @ replicate (Suc k - length (chunks b)) (replicate 1024 0)"
  by (simp add: getChunk_def CHUNK_SIZE_def)

lemma bit_at_getChunk_old:
  assumes "i div 8 div 1024 < length (chunks b)"
  shows "bit_at (getChunk k b) i = bit_at b i"
  using assms by (simp add: bit_at_eq chunks_getChunk nth_append)

lemma bit_at_getChunk_new:
  assumes "length (chunks b) \<le> i div 8 div 1024" "i div 8 div 1024 < length (chunks (getChunk k b))"
  shows "bit_at (getChunk k b) i = 0"
  using assms by (simp add: bit_at_eq chunks_getChunk nth_append)

lemma inv_getChunk:
  assumes "BitBuf_inv b"
  shows "BitBuf_inv (getChunk k b)"
proof -
  have len: "length_b (getChunk k b) = length_b b"
    by (simp add: getChunk_def)
  have mono: "length (chunks b) \<le> length (chunks (getChunk k b))"
    by (simp add: chunks_getChunk)
  have "bit_at (getChunk k b) i = 0"
    if "length_b b \<le> i" "i < 1024 * 8 * length (chunks (getChunk k b))" for i
  proof (cases "i div 8 div 1024 < length (chunks b)")
    case True
    then have "i < 1024 * 8 * length (chunks b)"
      by (simp only: chunk_index_less_iff)
    with assms that(1) have "bit_at b i = 0"
      by (simp add: BitBuf_inv_eq)
    with True show ?thesis
      by (simp add: bit_at_getChunk_old)
  next
    case False
    moreover have "i div 8 div 1024 < length (chunks (getChunk k b))"
      using that(2) by (simp only: chunk_index_less_iff)
    ultimately show ?thesis
      by (simp add: bit_at_getChunk_new)
  qed
  moreover have "\<forall>c \<in> set (chunks (getChunk k b)). length c = 1024"
    using assms by (auto simp add: BitBuf_inv_eq chunks_getChunk)
  moreover have "length_b b \<le> 1024 * 8 * length (chunks (getChunk k b))"
    using assms mono by (simp add: BitBuf_inv_eq)
  ultimately show ?thesis
    by (simp add: BitBuf_inv_eq len)
qed

lemma length_chunks_getChunk: "k < length (chunks (getChunk k b))"
  by (simp add: chunks_getChunk)


lemma push_eq: "push x b = store_bit x (getChunk (length_b b div 8 div 1024) b)"
  by (simp add: push_def store_bit_def getCoordinates_eq Let_def getChunk_def)

lemma bit_at_store_bit:
  assumes inv: "BitBuf_inv c" and ci: "length_b c div 8 div 1024 < length (chunks c)"
    and i: "i div 8 div 1024 < length (chunks c)"
  shows "bit_at (store_bit x c) i = (if i = length_b c then x mod 2 else bit_at c i)"
proof -
  define L where "L = length_b c"
  define ch where "ch = chunks c ! (L div 8 div 1024)"
  define w where "w = ch ! (L div 8 mod 1024)"
  define w' where "w' = w OR push_bit (L mod 8) (of_nat (x AND 1))"
  have cs: "chunks (store_bit x c) = (chunks c)[L div 8 div 1024 := ch[L div 8 mod 1024 := w']]"
    by (simp add: store_bit_def L_def w_def w'_def ch_def)
  have len_ch: "length ch = 1024"
    using inv ci by (simp add: BitBuf_inv_eq ch_def L_def)
  have "L < 1024 * 8 * length (chunks c)"
    using ci by (simp only: chunk_index_less_iff L_def)
  then have "bit_at c L = 0"
    using inv by (simp add: BitBuf_inv_eq L_def)
  then have old0: "\<not> bit w (L mod 8)"
    using len_ch by (simp add: bit_at_eq w_def ch_def split: if_splits)
  have bw': "bit w' k \<longleftrightarrow> bit w k \<or> (k = L mod 8 \<and> odd x)" if "k < 8" for k
    unfolding w'_def using that by (rule bit_or_push) simp
  have x2: "(of_bool (odd x) :: nat) = x mod 2"
    by (simp only: mod_2_eq_odd)
  show ?thesis
  proof (cases "i div 8 div 1024 = L div 8 div 1024")
    case same_chunk: True
    have nth: "chunks (store_bit x c) ! (i div 8 div 1024) = ch[L div 8 mod 1024 := w']"
      unfolding cs same_chunk using ci by (simp add: L_def)
    have old: "chunks c ! (i div 8 div 1024) = ch"
      unfolding same_chunk ch_def ..
    show ?thesis
    proof (cases "i div 8 mod 1024 = L div 8 mod 1024")
      case same_octet: True
      have v: "bit_at (store_bit x c) i = of_bool (bit w' (i mod 8))"
        unfolding bit_at_eq nth same_octet by (simp add: len_ch)
      have vo: "bit_at c i = of_bool (bit w (i mod 8))"
        unfolding bit_at_eq old same_octet by (simp add: len_ch w_def)
      show ?thesis
      proof (cases "i mod 8 = L mod 8")
        case True
        from same_chunk same_octet True have iL: "i = L"
          by (rule coords_inj)
        have "bit w' (L mod 8) \<longleftrightarrow> odd x"
          using old0 by (simp add: bw')
        then have "bit_at (store_bit x c) i = of_bool (odd x)"
          using v iL by simp
        also have "\<dots> = x mod 2"
          by (rule x2)
        finally show ?thesis
          unfolding iL L_def by (simp only: refl if_True)
      next
        case False
        then have "i \<noteq> L" by auto
        moreover have "bit w' (i mod 8) \<longleftrightarrow> bit w (i mod 8)"
          using False by (simp add: bw')
        ultimately show ?thesis
          unfolding v vo by (simp add: L_def)
      qed
    next
      case False
      then have "i \<noteq> L" by auto
      moreover have "bit_at (store_bit x c) i = bit_at c i"
        unfolding bit_at_eq nth old using False by simp
      ultimately show ?thesis
        by (simp add: L_def)
    qed
  next
    case False
    then have "i \<noteq> L" by auto
    moreover have "chunks (store_bit x c) ! (i div 8 div 1024) = chunks c ! (i div 8 div 1024)"
      unfolding cs using False by simp
    then have "bit_at (store_bit x c) i = bit_at c i"
      unfolding bit_at_eq by simp
    ultimately show ?thesis
      by (simp add: L_def)
  qed
qed

lemma inv_store_bit:
  assumes inv: "BitBuf_inv c" and ci: "length_b c div 8 div 1024 < length (chunks c)"
  shows "BitBuf_inv (store_bit x c)"
proof -
  have L: "length_b c < 1024 * 8 * length (chunks c)"
    using ci by (simp only: chunk_index_less_iff)
  have len: "length (chunks (store_bit x c)) = length (chunks c)"
    by (simp add: store_bit_def)
  have "bit_at (store_bit x c) i = 0"
    if "Suc (length_b c) \<le> i" "i < 1024 * 8 * length (chunks c)" for i
  proof -
    have "i div 8 div 1024 < length (chunks c)"
      using that(2) by (simp only: chunk_index_less_iff)
    then have "bit_at (store_bit x c) i = bit_at c i"
      using that(1) by (simp add: bit_at_store_bit [OF inv ci])
    then show ?thesis
      using inv that by (simp add: BitBuf_inv_eq)
  qed
  moreover have "\<forall>ch \<in> set (chunks (store_bit x c)). length ch = 1024"
  proof
    fix ch assume "ch \<in> set (chunks (store_bit x c))"
    then have "ch \<in> insert ((chunks c ! (length_b c div 8 div 1024))[length_b c div 8 mod 1024 :=
             (chunks c ! (length_b c div 8 div 1024) ! (length_b c div 8 mod 1024))
               OR push_bit (length_b c mod 8) (of_nat (x AND 1))]) (set (chunks c))"
      using set_update_subset_insert by (fastforce simp add: store_bit_def)
    then show "length ch = 1024"
      using inv ci by (auto simp add: BitBuf_inv_eq)
  qed
  ultimately show ?thesis
    using L by (simp add: BitBuf_inv_eq len) (simp add: store_bit_def)
qed

lemma inv_push:
  assumes "BitBuf_inv b"
  shows "BitBuf_inv (push x b)"
proof -
  let ?c = "getChunk (length_b b div 8 div 1024) b"
  have inv: "BitBuf_inv ?c"
    using assms by (rule inv_getChunk)
  have L: "length_b ?c = length_b b"
    by (simp add: getChunk_def)
  have ci: "length_b ?c div 8 div 1024 < length (chunks ?c)"
    unfolding L by (rule length_chunks_getChunk)
  show ?thesis
    unfolding push_eq using inv ci by (rule inv_store_bit)
qed

lemma length_push: "length_b (push x b) = Suc (length_b b)"
  by (simp add: push_eq store_bit_def getChunk_def)

lemma pos_push: "pos (push x b) = pos b"
  by (simp add: push_eq store_bit_def getChunk_def)

lemma bit_at_push:
  assumes "BitBuf_inv b" "i \<le> length_b b"
  shows "bit_at (push x b) i = (if i = length_b b then x mod 2 else bit_at b i)"
proof -
  let ?c = "getChunk (length_b b div 8 div 1024) b"
  have inv: "BitBuf_inv ?c"
    using assms(1) by (rule inv_getChunk)
  have L: "length_b ?c = length_b b"
    by (simp add: getChunk_def)
  have ci: "length_b ?c div 8 div 1024 < length (chunks ?c)"
    unfolding L by (rule length_chunks_getChunk)
  then have "length_b b < 1024 * 8 * length (chunks ?c)"
    by (simp only: chunk_index_less_iff L)
  with assms(2) have "i < 1024 * 8 * length (chunks ?c)"
    by simp
  then have i: "i div 8 div 1024 < length (chunks ?c)"
    by (simp only: chunk_index_less_iff)
  have "bit_at (push x b) i = (if i = length_b b then x mod 2 else bit_at ?c i)"
    unfolding push_eq by (simp add: bit_at_store_bit [OF inv ci i] L)
  moreover have "bit_at ?c i = bit_at b i" if "i < length_b b"
  proof -
    have "i < 1024 * 8 * length (chunks b)"
      using that assms(1) by (simp add: BitBuf_inv_eq)
    then have "i div 8 div 1024 < length (chunks b)"
      by (simp only: chunk_index_less_iff)
    then show ?thesis by (rule bit_at_getChunk_old)
  qed
  ultimately show ?thesis
    using assms(2) by (cases "i = length_b b") simp_all
qed

lemma inv_covered: "BitBuf_inv b \<Longrightarrow> covered b"
  by (simp add: BitBuf_inv_def)

lemma inv_new: "BitBuf_inv BitBuf_new"
  by (simp add: BitBuf_inv_def covered_def BitBuf_new_def)

lemma covered_pos [simp]: "covered (b\<lparr>pos := p\<rparr>) = covered b"
  by (simp add: covered_def)

lemma bit_at_pos [simp]: "bit_at (b\<lparr>pos := p\<rparr>) i = bit_at b i"
  by (simp add: bit_at_def)

lemma inv_pos [simp]: "BitBuf_inv (b\<lparr>pos := p\<rparr>) = BitBuf_inv b"
  by (simp add: BitBuf_inv_def)

lemma content_pos [simp]: "content (b\<lparr>pos := p\<rparr>) = content b"
  by (simp add: content_def)

lemma length_content [simp]: "length (content b) = length_b b"
  by (simp add: content_def)

lemma content_nth: "i < length_b b \<Longrightarrow> content b ! i = bit_at b i"
  by (simp add: content_def)

lemma content_push:
  assumes "BitBuf_inv b"
  shows "content (push x b) = content b @ [x mod 2]"
proof (rule nth_equalityI)
  show "length (content (push x b)) = length (content b @ [x mod 2])"
    by (simp add: length_push)
next
  fix i assume "i < length (content (push x b))"
  then have i: "i \<le> length_b b"
    by (simp add: length_push)
  then show "content (push x b) ! i = (content b @ [x mod 2]) ! i"
    using bit_at_push [OF assms i, of x]
    by (simp add: content_nth length_push nth_append)
qed

lemma fold_push:
  assumes "BitBuf_inv b"
  shows "BitBuf_inv (fold push xs b) \<and> content (fold push xs b) = content b @ map (\<lambda>x. x mod 2) xs
    \<and> pos (fold push xs b) = pos b \<and> length_b (fold push xs b) = length_b b + length xs"
  using assms
proof (induction xs arbitrary: b)
  case Nil
  then show ?case by simp
next
  case (Cons x xs)
  have "BitBuf_inv (push x b)"
    using Cons.prems by (rule inv_push)
  from Cons.IH [OF this] show ?case
    by (simp add: content_push [OF Cons.prems] pos_push length_push)
qed

lemma writeOctet_fold: "writeOctet v b = fold push (map (\<lambda>i. drop_bit i v) [0..<8]) b"
  by (simp add: writeOctet_def OCTET_SIZE_def fold_map comp_def)

lemma writeOctet_props:
  assumes "BitBuf_inv b"
  shows "BitBuf_inv (writeOctet v b)" "content (writeOctet v b) = content b @ octet_bits v"
    "pos (writeOctet v b) = pos b" "length_b (writeOctet v b) = length_b b + 8"
  using fold_push [OF assms, of "map (\<lambda>i. drop_bit i v) [0..<8]"]
  by (simp_all add: writeOctet_fold octet_bits_def comp_def)


lemma readBit_ok:
  assumes "covered b" "pos b < length_b b"
  shows "readBit b = (Inr (bit_at b (pos b)), b\<lparr>pos := pos b + 1\<rparr>)"
  by (simp add: readBit_def get_ok [OF assms])

lemma readBit_fail: "length_b b \<le> pos b \<Longrightarrow> readBit b = (Inl IndexError, b)"
  by (simp add: readBit_def get_fail)

lemma readOctet_loop_ok:
  assumes "covered b" "pos b + 8 \<le> length_b b"
  shows "readOctet_loop i acc b = (Inr (octet_at b (pos b) i acc), b\<lparr>pos := pos b + 8\<rparr>)"
  using assms
proof (induction i acc b rule: readOctet_loop.induct)
  case (1 i octet b)
  show ?case
  proof (cases "i < 8")
    case True
    then have g: "get (pos b + i) b = (Inr (bit_at b (pos b + i)), b)"
      using "1.prems" by (simp add: get_ok)
    have "readOctet_loop (i + 1) (octet OR push_bit i (bit_at b (pos b + i))) b =
        (Inr (octet_at b (pos b) (i + 1) (octet OR push_bit i (bit_at b (pos b + i)))), b\<lparr>pos := pos b + 8\<rparr>)"
      using "1.IH" [OF _ g [symmetric] refl "1.prems"] True by (simp add: OCTET_SIZE_def)
    moreover have "octet_at b (pos b) i octet = octet_at b (pos b) (i + 1) (octet OR push_bit i (bit_at b (pos b + i)))"
      using True by (simp add: octet_at_def upt_conv_Cons)
    ultimately show ?thesis
      using True g by (subst readOctet_loop.simps) (simp add: OCTET_SIZE_def)
  next
    case False
    then show ?thesis
      by (subst readOctet_loop.simps) (simp add: OCTET_SIZE_def octet_at_def)
  qed
qed

lemma readOctet_ok:
  assumes "covered b" "pos b + 8 \<le> length_b b"
  shows "readOctet b = (Inr (octet_at b (pos b) 0 0), b\<lparr>pos := pos b + 8\<rparr>)"
  unfolding readOctet_def using assms by (rule readOctet_loop_ok)

lemma readOctet_loop_fail:
  assumes "covered b" "length_b b < pos b + 8" "i < 8"
  shows "readOctet_loop i acc b = (Inl IndexError, b)"
  using assms
proof (induction i acc b rule: readOctet_loop.induct)
  case (1 i octet b)
  show ?case
  proof (cases "pos b + i < length_b b")
    case True
    then have g: "get (pos b + i) b = (Inr (bit_at b (pos b + i)), b)"
      using "1.prems" by (simp add: get_ok)
    have i1: "i + 1 < 8"
      using True "1.prems" by simp
    have "readOctet_loop (i + 1) (octet OR push_bit i (bit_at b (pos b + i))) b = (Inl IndexError, b)"
      using "1.IH" [OF _ g [symmetric] refl "1.prems"(1,2) i1] "1.prems"(3) by (simp add: OCTET_SIZE_def)
    then show ?thesis
      using "1.prems"(3) g by (subst readOctet_loop.simps) (simp add: OCTET_SIZE_def)
  next
    case False
    then have "get (pos b + i) b = (Inl IndexError, b)"
      by (simp add: get_fail)
    then show ?thesis
      using "1.prems"(3) by (subst readOctet_loop.simps) (simp add: OCTET_SIZE_def)
  qed
qed

lemma readOctet_fail:
  assumes "covered b" "length_b b < pos b + 8"
  shows "readOctet b = (Inl IndexError, b)"
  unfolding readOctet_def using assms by (rule readOctet_loop_fail) simp


lemma drop_bit_mod2: "drop_bit j (v::nat) mod 2 = of_bool (bit v j)"
  by (simp only: mod_2_eq_odd bit_iff_odd_drop_bit)

lemma fold_or_bits:
  "fold (\<lambda>j a. a OR push_bit j (of_bool (bit v j))) [0..<k] (0::nat) = take_bit k v"
proof (induction k)
  case 0
  show ?case by simp
next
  case (Suc k)
  have "take_bit k v OR push_bit k (of_bool (bit v k)) = take_bit (Suc k) v"
    by (rule bit_eqI) (auto simp add: bit_or_iff bit_take_bit_iff bit_push_bit_iff bit_of_bool_iff less_Suc_eq)
  with Suc show ?case
    by simp
qed

lemma octet_at_value:
  assumes "\<And>j. j < 8 \<Longrightarrow> bit_at b (p + j) = drop_bit j v mod 2"
  shows "octet_at b p 0 0 = take_bit 8 v"
proof -
  have "fold (\<lambda>j a. a OR push_bit j (bit_at b (p + j))) [0..<8] 0
      = fold (\<lambda>j a. a OR push_bit j (of_bool (bit v j))) [0..<8] (0::nat)"
    by (rule fold_cong) (simp_all add: assms drop_bit_mod2)
  then show ?thesis
    by (simp only: octet_at_def fold_or_bits)
qed

lemma length_octet_bits [simp]: "length (octet_bits v) = 8"
  by (simp add: octet_bits_def)

lemma nth_octet_bits: "j < 8 \<Longrightarrow> octet_bits v ! j = drop_bit j v mod 2"
  by (simp add: octet_bits_def)

lemma unread_pos: "unread (b\<lparr>pos := p\<rparr>) = drop p (content b)"
  by (simp add: unread_def)

lemma unread_prefix:
  assumes "unread b = xs @ rest" "xs \<noteq> []"
  shows "pos b + length xs \<le> length_b b" "\<And>j. j < length xs \<Longrightarrow> bit_at b (pos b + j) = xs ! j"
    "unread (b\<lparr>pos := pos b + length xs\<rparr>) = rest"
proof -
  have d: "drop (pos b) (content b) = xs @ rest"
    using assms by (simp add: unread_def)
  then have "length (drop (pos b) (content b)) = length xs + length rest"
    by simp
  then show le: "pos b + length xs \<le> length_b b"
    using assms(2) by (cases xs) simp_all
  show "bit_at (b) (pos b + j) = xs ! j" if "j < length xs" for j
  proof -
    have "content b ! (pos b + j) = drop (pos b) (content b) ! j"
      using le that by simp
    also have "\<dots> = xs ! j"
      using that by (simp add: d nth_append)
    finally show ?thesis
      using le that by (simp add: content_nth)
  qed
  have "drop (pos b + length xs) (content b) = drop (length xs) (drop (pos b) (content b))"
    by (simp add: add.commute)
  then show "unread (b\<lparr>pos := pos b + length xs\<rparr>) = rest"
    by (simp add: unread_pos d)
qed

lemma readOctet_unread:
  assumes "covered b" "unread b = octet_bits v @ rest" "v < 256"
  shows "readOctet b = (Inr v, b\<lparr>pos := pos b + 8\<rparr>)" "unread (b\<lparr>pos := pos b + 8\<rparr>) = rest"
proof -
  have le: "pos b + 8 \<le> length_b b"
    using unread_prefix(1) [OF assms(2)] by (simp add: octet_bits_def)
  have "octet_at b (pos b) 0 0 = take_bit 8 v"
    using unread_prefix(2) [OF assms(2)] by (intro octet_at_value) (simp add: nth_octet_bits octet_bits_def)
  also have "\<dots> = v"
    using assms(3) by (simp add: take_bit_nat_eq_self_iff)
  finally show "readOctet b = (Inr v, b\<lparr>pos := pos b + 8\<rparr>)"
    using readOctet_ok [OF assms(1) le] by simp
  show "unread (b\<lparr>pos := pos b + 8\<rparr>) = rest"
    using unread_prefix(3) [OF assms(2)] by (simp add: octet_bits_def)
qed

lemma readBit_unread:
  assumes "covered b" "unread b = x # rest"
  shows "readBit b = (Inr x, b\<lparr>pos := pos b + 1\<rparr>)" "unread (b\<lparr>pos := pos b + 1\<rparr>) = rest"
proof -
  have u: "unread b = [x] @ rest"
    using assms(2) by simp
  have "pos b < length_b b"
    using unread_prefix(1) [OF u] by simp
  moreover have "bit_at b (pos b) = x"
    using unread_prefix(2) [OF u, of 0] by simp
  ultimately show "readBit b = (Inr x, b\<lparr>pos := pos b + 1\<rparr>)"
    using readBit_ok [OF assms(1)] by simp
  show "unread (b\<lparr>pos := pos b + 1\<rparr>) = rest"
    using unread_prefix(3) [OF u] by simp
qed

lemma content_new: "content BitBuf_new = []"
  by (simp add: content_def BitBuf_new_def)

lemma new_fields: "length_b BitBuf_new = 0" "pos BitBuf_new = 0" "chunks BitBuf_new = []"
  by (simp_all add: BitBuf_new_def)

lemma octet_bits_65: "octet_bits 65 = [1, 0, 0, 0, 0, 0, 1, 0]"
  by (simp add: octet_bits_def upt_conv_Cons drop_bit_eq_div)

section \<open>Claims about the bit buffer\<close>

text \<open>
  Claim C7. For every integer \<open>v\<close> with \<open>0 \<le> v \<le> 255\<close>, writing \<open>v\<close> with
  \<^verbatim>\<open>writeOctet\<close> and then reading with \<^verbatim>\<open>readOctet\<close> at the written position
  returns \<open>v\<close>, and the eight bits are stored least-significant bit first: the bits
  appended to the buffer are bit 0, bit 1, ..., bit 7 of \<open>v\<close>, in this order. The buffer
  is any buffer that satisfies the invariant and whose read position stands where the
  write begins, the fresh buffer among them.
\<close>

theorem writeOctet_readOctet_roundtrip:
  assumes "BitBuf_inv b" "pos b = length_b b" "v \<le> 255"
  shows "readOctet (writeOctet v b) = (Inr v, (writeOctet v b)\<lparr>pos := length_b b + 8\<rparr>)
    \<and> content (writeOctet v b) = content b @ map (\<lambda>i. of_bool (bit v i)) [0..<8]"
proof -
  let ?w = "writeOctet v b"
  note w = writeOctet_props [OF assms(1), of v]
  have "covered ?w"
    using w(1) by (rule inv_covered)
  moreover have "unread ?w = octet_bits v @ []"
    by (simp add: unread_def w assms(2))
  moreover have "v < 256"
    using assms(3) by simp
  ultimately have "readOctet ?w = (Inr v, ?w\<lparr>pos := pos ?w + 8\<rparr>)"
    by (rule readOctet_unread(1))
  moreover have "octet_bits v = map (\<lambda>i. of_bool (bit v i)) [0..<8]"
    unfolding octet_bits_def by (rule map_cong) (simp_all only: drop_bit_mod2)
  ultimately show ?thesis
    by (simp add: w assms(2))
qed

theorem writeOctet_readOctet_roundtrip_witness:
  "BitBuf_inv BitBuf_new \<and> pos BitBuf_new = length_b BitBuf_new \<and> (65::nat) \<le> 255
    \<and> readOctet (writeOctet 65 BitBuf_new) = (Inr 65, (writeOctet 65 BitBuf_new)\<lparr>pos := 8\<rparr>)
    \<and> content (writeOctet 65 BitBuf_new) = [1, 0, 0, 0, 0, 0, 1, 0]"
proof -
  have h: "pos BitBuf_new = length_b BitBuf_new" "(65::nat) \<le> 255" "length_b BitBuf_new = 0"
    by (simp_all add: BitBuf_new_def)
  have c: "content (writeOctet 65 BitBuf_new) = [1, 0, 0, 0, 0, 0, 1, 0]"
    by (simp add: writeOctet_props(2) [OF inv_new] content_new octet_bits_65)
  show ?thesis
    using writeOctet_readOctet_roundtrip [OF inv_new h(1,2)] inv_new h c by simp
qed

text \<open>
  Claim C8. \<^verbatim>\<open>readBit\<close> returns the bit stored at the read position and advances the
  position by exactly 1 when \<open>pos < length\<close>; it fails with the index error exactly when
  \<open>pos \<ge> length\<close>; \<^verbatim>\<open>readOctet\<close> fails the same way whenever fewer than 8
  unread bits remain.
\<close>

theorem readBit_readOctet_range:
  assumes "covered b"
  shows "(pos b < length_b b \<longrightarrow> readBit b = (Inr (content b ! pos b), b\<lparr>pos := pos b + 1\<rparr>))
    \<and> (fst (readBit b) = Inl IndexError \<longleftrightarrow> length_b b \<le> pos b)
    \<and> (length_b b < pos b + 8 \<longrightarrow> fst (readOctet b) = Inl IndexError)"
proof (intro conjI impI)
  assume "pos b < length_b b"
  then show "readBit b = (Inr (content b ! pos b), b\<lparr>pos := pos b + 1\<rparr>)"
    using assms by (simp add: readBit_ok content_nth)
next
  show "fst (readBit b) = Inl IndexError \<longleftrightarrow> length_b b \<le> pos b"
  proof (cases "pos b < length_b b")
    case True
    then show ?thesis
      using assms by (simp add: readBit_ok)
  next
    case False
    then show ?thesis
      by (simp add: readBit_fail)
  qed
next
  assume "length_b b < pos b + 8"
  with assms show "fst (readOctet b) = Inl IndexError"
    by (simp add: readOctet_fail)
qed

theorem readBit_readOctet_range_witness:
  "covered (writeOctet 65 BitBuf_new)
    \<and> readBit (writeOctet 65 BitBuf_new) = (Inr 1, (writeOctet 65 BitBuf_new)\<lparr>pos := 1\<rparr>)
    \<and> fst (readBit ((writeOctet 65 BitBuf_new)\<lparr>pos := 8\<rparr>)) = Inl IndexError
    \<and> fst (readOctet ((writeOctet 65 BitBuf_new)\<lparr>pos := 1\<rparr>)) = Inl IndexError"
proof -
  let ?B = "writeOctet 65 BitBuf_new"
  note w = writeOctet_props [OF inv_new, of 65]
  have c: "covered ?B"
    using w(1) by (rule inv_covered)
  have l: "length_b ?B = 8" "pos ?B = 0" "content ?B ! 0 = 1"
    by (simp_all add: w content_new octet_bits_65 new_fields)
  have c1: "covered (?B\<lparr>pos := 1\<rparr>)" and c8: "covered (?B\<lparr>pos := 8\<rparr>)"
    using c by simp_all
  show ?thesis
    using readBit_readOctet_range [OF c] readBit_readOctet_range [OF c1] readBit_readOctet_range [OF c8] c l
    by simp
qed

text \<open>
  Claim C10. When \<^verbatim>\<open>readBit\<close> or \<^verbatim>\<open>readOctet\<close> fails, the buffer it leaves
  behind is the buffer it was called on: position, length and stored bits are unchanged.
\<close>

theorem failed_read_keeps_state:
  assumes "covered b"
  shows "(\<forall>e b'. readBit b = (Inl e, b') \<longrightarrow> b' = b) \<and> (\<forall>e b'. readOctet b = (Inl e, b') \<longrightarrow> b' = b)"
proof (intro conjI allI impI)
  fix e b' assume r: "readBit b = (Inl e, b')"
  show "b' = b"
  proof (cases "pos b < length_b b")
    case True
    then show ?thesis
      using assms r by (simp add: readBit_ok)
  next
    case False
    then show ?thesis
      using r by (simp add: readBit_fail)
  qed
next
  fix e b' assume r: "readOctet b = (Inl e, b')"
  show "b' = b"
  proof (cases "pos b + 8 \<le> length_b b")
    case True
    then show ?thesis
      using assms r by (simp add: readOctet_ok)
  next
    case False
    then show ?thesis
      using assms r by (simp add: readOctet_fail)
  qed
qed


theorem failed_read_keeps_state_witness:
  "covered ((writeOctet 65 BitBuf_new)\<lparr>pos := 8\<rparr>)
    \<and> readBit ((writeOctet 65 BitBuf_new)\<lparr>pos := 8\<rparr>)
        = (Inl IndexError, (writeOctet 65 BitBuf_new)\<lparr>pos := 8\<rparr>)
    \<and> covered ((writeOctet 65 BitBuf_new)\<lparr>pos := 1\<rparr>)
    \<and> readOctet ((writeOctet 65 BitBuf_new)\<lparr>pos := 1\<rparr>)
        = (Inl IndexError, (writeOctet 65 BitBuf_new)\<lparr>pos := 1\<rparr>)"
proof -
  let ?B = "writeOctet 65 BitBuf_new"
  note w = writeOctet_props [OF inv_new, of 65]
  have c1: "covered (?B\<lparr>pos := 1\<rparr>)" and c8: "covered (?B\<lparr>pos := 8\<rparr>)"
    using inv_covered [OF w(1)] by simp_all
  have l: "length_b ?B = 8"
    by (simp add: w new_fields)
  obtain x8 b8 where r8: "readBit (?B\<lparr>pos := 8\<rparr>) = (x8, b8)"
    by (cases "readBit (?B\<lparr>pos := 8\<rparr>)")
  obtain x1 b1 where r1: "readOctet (?B\<lparr>pos := 1\<rparr>) = (x1, b1)"
    by (cases "readOctet (?B\<lparr>pos := 1\<rparr>)")
  have "x8 = Inl IndexError"
    using readBit_fail [of "?B\<lparr>pos := 8\<rparr>"] r8 l by simp
  moreover have "x1 = Inl IndexError"
    using readOctet_fail [OF c1] r1 l by simp
  ultimately show ?thesis
    using failed_read_keeps_state [OF c8] failed_read_keeps_state [OF c1] r8 r1 c1 c8
    by simp
qed

section \<open>Properties of strings and serialized trees\<close>

declare readString_loop.simps [simp del]
declare StringEater_eat_loop.simps [simp del]
declare buildTree_loop.simps [simp del]

lemma writeString_props:
  assumes "BitBuf_inv b"
  shows "BitBuf_inv (writeString s b) \<and> content (writeString s b) = content b @ str_bits s
    \<and> pos (writeString s b) = pos b \<and> length_b (writeString s b) = length_b b + 8 * length s"
  using assms
proof (induction s arbitrary: b)
  case Nil
  then show ?case by (simp add: writeString_def str_bits_def)
next
  case (Cons c s)
  note w = writeOctet_props [OF Cons.prems, of "of_char c"]
  have "writeString (c # s) b = writeString s (writeOctet (of_char c) b)"
    by (simp add: writeString_def)
  with Cons.IH [OF w(1)] show ?case
    by (simp add: w str_bits_def)
qed

lemma covered_readOctet_step:
  "covered (b\<lparr>pos := p\<rparr>)" if "covered b"
  using that by simp

lemma readString_loop_unread:
  assumes "covered b" "unread b = str_bits s @ octet_bits d @ rest" "d < 256"
    "\<forall>c \<in> set s. of_char c \<noteq> d"
  shows "readString_loop d data b = (Inr (map char_of data @ s), b\<lparr>pos := pos b + 8 * (length s + 1)\<rparr>)
    \<and> unread (b\<lparr>pos := pos b + 8 * (length s + 1)\<rparr>) = rest"
  using assms
proof (induction s arbitrary: data b)
  case Nil
  have u: "unread b = octet_bits d @ rest"
    using Nil.prems(2) by (simp add: str_bits_def)
  note r = readOctet_unread [OF Nil.prems(1) u Nil.prems(3)]
  show ?case
    by (subst readString_loop.simps) (simp add: r)
next
  case (Cons c s)
  let ?b = "b\<lparr>pos := pos b + 8\<rparr>"
  have u: "unread b = octet_bits (of_char c) @ (str_bits s @ octet_bits d @ rest)"
    using Cons.prems(2) by (simp add: str_bits_def)
  have lt: "(of_char c :: nat) < 256"
    by simp
  note r = readOctet_unread [OF Cons.prems(1) u lt]
  have ne: "(of_char c :: nat) \<noteq> d"
    using Cons.prems(4) by simp
  have cov: "covered ?b"
    using Cons.prems(1) by simp
  have rest: "\<forall>c \<in> set s. of_char c \<noteq> d"
    using Cons.prems(4) by simp
  note ih = Cons.IH [OF cov r(2) Cons.prems(3) rest, of "data @ [of_char c]"]
  have "readString_loop d data b = readString_loop d (data @ [of_char c]) ?b"
    by (subst readString_loop.simps) (simp add: r ne)
  with ih show ?case
    by (simp add: add.assoc)
qed


lemma readString_unread:
  assumes "covered b" "unread b = str_bits s @ octet_bits d @ rest" "d < 256"
    "\<forall>c \<in> set s. of_char c \<noteq> d"
  shows "readString d b = (Inr s, b\<lparr>pos := pos b + 8 * (length s + 1)\<rparr>)"
    "unread (b\<lparr>pos := pos b + 8 * (length s + 1)\<rparr>) = rest"
  using readString_loop_unread [OF assms, of "[]"] by (simp_all add: readString_def)

lemma buildString_props:
  assumes "BitBuf_inv b"
  shows "BitBuf_inv (buildString t b) \<and> content (buildString t b) = content b @ ser_bits t
    \<and> pos (buildString t b) = pos b"
  using assms
proof (induction t b rule: buildString.induct)
  case (1 b)
  note w1 = writeOctet_props [OF "1.prems", of NULL_NODE]
  note w2 = writeOctet_props [OF w1(1), of SPLIT]
  show ?case
    by (simp add: w1 w2)
next
  case (2 l r tok occ b)
  define b1 where "b1 = (case tok of None \<Rightarrow> writeOctet NULL_TOKEN b | Some t \<Rightarrow> writeString t b)"
  have p1: "BitBuf_inv b1 \<and> content b1 = content b @ (case tok of None \<Rightarrow> octet_bits NULL_TOKEN | Some t \<Rightarrow> str_bits t)
      \<and> pos b1 = pos b"
    unfolding b1_def using writeOctet_props [OF "2.prems", of NULL_TOKEN] writeString_props [OF "2.prems"]
    by (cases tok) simp_all
  define b2 where "b2 = writeOctet SPLIT b1"
  have p2: "BitBuf_inv b2 \<and> content b2 = content b1 @ octet_bits SPLIT \<and> pos b2 = pos b1"
    unfolding b2_def using writeOctet_props [of b1 SPLIT] p1 by simp
  have p3: "BitBuf_inv (buildString l b2) \<and> content (buildString l b2) = content b2 @ ser_bits l
      \<and> pos (buildString l b2) = pos b2"
    using "2.IH"(1) [OF b1_def b2_def] p2 by simp
  have p4: "BitBuf_inv (buildString r (buildString l b2))
      \<and> content (buildString r (buildString l b2)) = content (buildString l b2) @ ser_bits r
      \<and> pos (buildString r (buildString l b2)) = pos (buildString l b2)"
    using "2.IH"(2) [OF b1_def b2_def] p3 by simp
  have "buildString (Some (Node l r tok occ)) b = buildString r (buildString l b2)"
    by (simp add: b1_def b2_def)
  then show ?case
    using p1 p2 p3 p4 by simp
qed

lemma char_of_small: "n < 256 \<Longrightarrow> (of_char (char_of (n::nat)) :: nat) = n"
  by simp

lemma str_bits_single: "n < 256 \<Longrightarrow> str_bits [char_of (n::nat)] = octet_bits n"
  by (simp add: str_bits_def)

lemma length_str_bits [simp]: "length (str_bits s) = 8 * length s"
  by (induction s) (simp_all add: str_bits_def)

lemma unserialize_buildTree_ser:
  assumes "covered b" "unread b = ser_bits t @ rest" "readable_tokens t" "depth t < n"
  shows "unserialize_buildTree n b = (Inr (forget_occurrences t), b\<lparr>pos := pos b + length (ser_bits t)\<rparr>)
    \<and> unread (b\<lparr>pos := pos b + length (ser_bits t)\<rparr>) = rest"
  using assms
proof (induction t arbitrary: n b rest rule: forget_occurrences.induct)
  case 1
  obtain k where n: "n = Suc k"
    using "1.prems"(4) by (cases n) simp_all
  have u: "unread b = str_bits [char_of NULL_NODE] @ octet_bits SPLIT @ rest"
    using "1.prems"(2) by (simp add: str_bits_single NULL_NODE_def)
  have "\<forall>c \<in> set [char_of NULL_NODE]. (of_char c :: nat) \<noteq> SPLIT"
    by (simp add: NULL_NODE_def SPLIT_def)
  note r = readString_unread [OF "1.prems"(1) u _ this]
  have "charCodeAt [char_of NULL_NODE] 0 = Some NULL_NODE"
    by (simp add: charCodeAt_def NULL_NODE_def)
  then show ?case
    using r by (simp add: n SPLIT_def)
next
  case (2 l r tok occ)
  obtain k where n: "n = Suc k"
    using "2.prems"(4) by (cases n) simp_all
  define val where "val = (case tok of None \<Rightarrow> [char_of NULL_TOKEN] | Some t \<Rightarrow> t)"
  have sb: "str_bits val = (case tok of None \<Rightarrow> octet_bits NULL_TOKEN | Some t \<Rightarrow> str_bits t)"
    by (cases tok) (simp_all add: val_def str_bits_single NULL_TOKEN_def)
  have u: "unread b = str_bits val @ octet_bits SPLIT @ (ser_bits l @ ser_bits r @ rest)"
    using "2.prems"(2) by (simp add: sb)
  have nosplit: "\<forall>c \<in> set val. (of_char c :: nat) \<noteq> SPLIT"
    using "2.prems"(3) by (cases tok) (simp_all add: val_def NULL_TOKEN_def SPLIT_def)
  let ?b1 = "b\<lparr>pos := pos b + 8 * (length val + 1)\<rparr>"
  have rs: "readString SPLIT b = (Inr val, ?b1)" and u1: "unread ?b1 = ser_bits l @ (ser_bits r @ rest)"
    using readString_unread [OF "2.prems"(1) u _ nosplit] by (simp_all add: SPLIT_def)
  have notnull: "charCodeAt val 0 \<noteq> Some NULL_NODE"
    using "2.prems"(3) by (cases tok) (simp_all add: val_def charCodeAt_def NULL_TOKEN_def NULL_NODE_def)
  have tok: "(if charCodeAt val 0 \<noteq> Some NULL_TOKEN then Some val else None) = tok"
    using "2.prems"(3) by (cases tok) (simp_all add: val_def charCodeAt_def NULL_TOKEN_def)
  have c1: "covered ?b1"
    using "2.prems"(1) by simp
  have dl: "depth l < k" and dr: "depth r < k"
    using "2.prems"(4) by (simp_all add: n)
  have rl: "readable_tokens l" and rr: "readable_tokens r"
    using "2.prems"(3) by simp_all
  let ?b2 = "?b1\<lparr>pos := pos ?b1 + length (ser_bits l)\<rparr>"
  have l: "unserialize_buildTree k ?b1 = (Inr (forget_occurrences l), ?b2)" and u2: "unread ?b2 = ser_bits r @ rest"
    using "2.IH"(1) [OF c1 u1 rl dl] by simp_all
  have c2: "covered ?b2"
    using c1 by simp
  let ?b3 = "?b2\<lparr>pos := pos ?b2 + length (ser_bits r)\<rparr>"
  have r: "unserialize_buildTree k ?b2 = (Inr (forget_occurrences r), ?b3)" and u3: "unread ?b3 = rest"
    using "2.IH"(2) [OF c2 u2 rr dr] by simp_all
  have len: "length (ser_bits (Some (Node l r tok occ))) = 8 * (length val + 1) + length (ser_bits l) + length (ser_bits r)"
    by (cases tok) (simp_all add: val_def)
  have b3: "?b3 = b\<lparr>pos := pos b + length (ser_bits (Some (Node l r tok occ)))\<rparr>"
    unfolding len by (simp add: add.assoc)
  have "unserialize_buildTree n b = (Inr (Some (Node (forget_occurrences l) (forget_occurrences r) tok 0)), ?b3)"
    unfolding n using rs notnull tok l r by (simp add: Let_def)
  then show ?case
    using u3 unfolding b3 by simp
qed

text \<open>
  What a read that returns has done, and how a read can fail: the only error that the
  stream raises is its index error, and the depth counter of \<open>unserialize\<close> never
  runs out.
\<close>

lemma get_result:
  "get j c = (Inr v, c') \<Longrightarrow> length_b c' = length_b c \<and> pos c' = pos c \<and> j < length_b c"
  "get j c = (Inl e, c') \<Longrightarrow> e = IndexError"
  by (auto simp add: get_def getChunk_def Let_def split: if_splits prod.splits)

lemma readOctet_loop_result:
  "readOctet_loop i acc c = (Inr v, c') \<Longrightarrow>
     pos c' = pos c + 8 \<and> length_b c' = length_b c \<and> (i < 8 \<longrightarrow> pos c + 8 \<le> length_b c)"
  "readOctet_loop i acc c = (Inl e, c') \<Longrightarrow> e = IndexError"
proof (induction i acc c rule: readOctet_loop.induct)
  case (1 i octet b)
  {
    assume r: "readOctet_loop i octet b = (Inr v, c')"
    show "pos c' = pos b + 8 \<and> length_b c' = length_b b \<and> (i < 8 \<longrightarrow> pos b + 8 \<le> length_b b)"
    proof (cases "i < 8")
      case True
      then obtain w b1 where g: "get (pos b + i) b = (Inr w, b1)"
        and rr: "readOctet_loop (i + 1) (octet OR push_bit i w) b1 = (Inr v, c')"
        using r by (subst (asm) readOctet_loop.simps) (auto simp add: OCTET_SIZE_def split: prod.splits sum.splits)
      have s: "length_b b1 = length_b b" "pos b1 = pos b" "pos b + i < length_b b"
        using get_result(1) [OF g] by simp_all
      have "pos c' = pos b1 + 8 \<and> length_b c' = length_b b1 \<and> (i + 1 < 8 \<longrightarrow> pos b1 + 8 \<le> length_b b1)"
        using "1.IH"(1) [OF _ g [symmetric] refl rr] True by (simp add: OCTET_SIZE_def)
      then show ?thesis
        using s True by (cases "i + 1 < 8") auto
    next
      case False
      then show ?thesis
        using r by (subst (asm) readOctet_loop.simps) (auto simp add: OCTET_SIZE_def)
    qed
  }
  {
    assume r: "readOctet_loop i octet b = (Inl e, c')"
    show "e = IndexError"
    proof (cases "i < 8")
      case True
      show ?thesis
      proof (cases "get (pos b + i) b")
        case (Pair x b1)
        show ?thesis
        proof (cases x)
          case (Inl e')
          then show ?thesis
            using r Pair True get_result(2) [of "pos b + i" b e' b1]
            by (subst (asm) readOctet_loop.simps) (simp add: OCTET_SIZE_def)
        next
          case (Inr w)
          then have "readOctet_loop (i + 1) (octet OR push_bit i w) b1 = (Inl e, c')"
            using r Pair True by (subst (asm) readOctet_loop.simps) (simp add: OCTET_SIZE_def)
          then show ?thesis
            using "1.IH"(2) [OF _ _ Inr] Pair True by (simp add: OCTET_SIZE_def)
        qed
      qed
    next
      case False
      then show ?thesis
        using r by (subst (asm) readOctet_loop.simps) (simp add: OCTET_SIZE_def)
    qed
  }
qed

lemma readOctet_result:
  "readOctet b = (Inr v, b') \<Longrightarrow> pos b' = pos b + 8 \<and> length_b b' = length_b b \<and> pos b + 8 \<le> length_b b"
  "readOctet b = (Inl e, b') \<Longrightarrow> e = IndexError"
  using readOctet_loop_result [of 0 0 b] by (simp_all add: readOctet_def)

lemma readString_loop_result:
  "readString_loop d data b = (Inr s, b') \<Longrightarrow>
     length_b b' = length_b b \<and> pos b + 8 \<le> pos b' \<and> pos b' \<le> length_b b"
  "readString_loop d data b = (Inl e, b') \<Longrightarrow> e = IndexError"
proof (induction d data b rule: readString_loop.induct)
  case (1 delimiter data b)
  {
    assume r: "readString_loop delimiter data b = (Inr s, b')"
    obtain octet b1 where o: "readOctet b = (Inr octet, b1)"
      using r by (subst (asm) readString_loop.simps) (auto split: prod.splits sum.splits)
    note f = readOctet_result(1) [OF o]
    show "length_b b' = length_b b \<and> pos b + 8 \<le> pos b' \<and> pos b' \<le> length_b b"
    proof (cases "octet = delimiter")
      case True
      then have "b' = b1"
        using r o by (subst (asm) readString_loop.simps) simp
      then show ?thesis
        using f by simp
    next
      case False
      then have "readString_loop delimiter (data @ [octet]) b1 = (Inr s, b')"
        using r o by (subst (asm) readString_loop.simps) simp
      then show ?thesis
        using "1.IH"(1) [OF o [symmetric] refl False] f by simp
    qed
  }
  {
    assume r: "readString_loop delimiter data b = (Inl e, b')"
    show "e = IndexError"
    proof (cases "readOctet b")
      case (Pair x b1)
      show ?thesis
      proof (cases x)
        case (Inl e')
        then show ?thesis
          using r Pair readOctet_result(2) [of b e' b1]
          by (subst (asm) readString_loop.simps) simp
      next
        case (Inr octet)
        then have "octet \<noteq> delimiter" and "readString_loop delimiter (data @ [octet]) b1 = (Inl e, b')"
          using r Pair by (subst (asm) readString_loop.simps, simp split: if_splits)+
        then show ?thesis
          using "1.IH"(2) [OF _ Inr] Pair by simp
      qed
    qed
  }
qed

lemma unserialize_buildTree_result:
  assumes "length_b b - pos b < n"
  shows "(\<forall>e b'. unserialize_buildTree n b = (Inl e, b') \<longrightarrow> e = IndexError)
    \<and> (\<forall>t b'. unserialize_buildTree n b = (Inr t, b') \<longrightarrow>
          length_b b' = length_b b \<and> pos b \<le> pos b' \<and> pos b' \<le> length_b b)"
  using assms
proof (induction n arbitrary: b)
  case 0
  then show ?case by simp
next
  case (Suc n)
  show ?case
  proof (cases "readString SPLIT b")
    case (Pair x b1)
    show ?thesis
    proof (cases x)
      case (Inl e')
      then have "e' = IndexError"
        using Pair readString_loop_result(2) [of SPLIT "[]" b e' b1] by (simp add: readString_def)
      then show ?thesis
        using Pair Inl by simp
    next
      case (Inr val)
      have f: "length_b b1 = length_b b" "pos b + 8 \<le> pos b1" "pos b1 \<le> length_b b"
        using Pair Inr readString_loop_result(1) [of SPLIT "[]" b val b1] by (simp_all add: readString_def)
      have fuel1: "length_b b1 - pos b1 < n"
        using f Suc.prems by simp
      note ih1 = Suc.IH [OF fuel1]
      show ?thesis
      proof (cases "charCodeAt val 0 = Some NULL_NODE")
        case True
        then show ?thesis
          using Pair Inr f by simp
      next
        case notnull: False
        show ?thesis
        proof (cases "unserialize_buildTree n b1")
          case p2: (Pair y b2)
          show ?thesis
          proof (cases y)
            case (Inl e2)
            then have "e2 = IndexError"
              using ih1 p2 by blast
            then show ?thesis
              using Pair Inr notnull p2 Inl by (simp add: Let_def)
          next
            case l: (Inr lt)
            have g: "length_b b2 = length_b b1" "pos b1 \<le> pos b2" "pos b2 \<le> length_b b1"
              using ih1 p2 l by blast+
            have fuel2: "length_b b2 - pos b2 < n"
              using g fuel1 by simp
            note ih2 = Suc.IH [OF fuel2]
            show ?thesis
            proof (cases "unserialize_buildTree n b2")
              case p3: (Pair z b3)
              show ?thesis
              proof (cases z)
                case (Inl e3)
                then have "e3 = IndexError"
                  using ih2 p3 by blast
                then show ?thesis
                  using Pair Inr notnull p2 l p3 Inl by (simp add: Let_def)
              next
                case r: (Inr rt)
                have h: "length_b b3 = length_b b2" "pos b2 \<le> pos b3" "pos b3 \<le> length_b b2"
                  using ih2 p3 r by blast+
                show ?thesis
                  using Pair Inr notnull p2 l p3 r f g h by (simp add: Let_def)
              qed
            qed
          qed
        qed
      qed
    qed
  qed
qed

lemma unserialize_errors:
  "fst (unserialize b) \<noteq> Inl OutOfFuel" "fst (unserialize b) \<noteq> Inl TypeError"
proof -
  obtain x b' where u: "unserialize_buildTree (Suc (length_b b - pos b)) b = (x, b')"
    by (cases "unserialize_buildTree (Suc (length_b b - pos b)) b")
  have "length_b b - pos b < Suc (length_b b - pos b)"
    by simp
  then have "\<forall>e b'. unserialize_buildTree (Suc (length_b b - pos b)) b = (Inl e, b') \<longrightarrow> e = IndexError"
    using unserialize_buildTree_result by blast
  then have "x = Inl e \<Longrightarrow> e = IndexError" for e
    using u by simp
  then have "x \<noteq> Inl OutOfFuel" "x \<noteq> Inl TypeError"
    by auto
  then show "fst (unserialize b) \<noteq> Inl OutOfFuel" "fst (unserialize b) \<noteq> Inl TypeError"
    unfolding unserialize_def u by simp_all
qed

section \<open>Claims about strings and the serialized tree\<close>

lemma length_ser_bits_depth: "depth t \<le> length (ser_bits t)"
  by (induction t rule: depth.induct) (auto simp add: octet_bits_def)

lemma huffman_tree_readable: "huffman_tree t \<Longrightarrow> readable_tokens (Some t)"
  by (induction t rule: huffman_tree.induct)
    (auto simp add: plain_token_def charCodeAt_def)

lemma length_b_content: "length_b b = length (content b)"
  by simp

lemma unserialize_serialized:
  assumes "BitBuf_inv b" "pos b = length_b b" "readable_tokens t"
  shows "unserialize (buildString t b)
    = (Inr (forget_occurrences t), (buildString t b)\<lparr>pos := length_b (buildString t b)\<rparr>)"
proof -
  let ?B = "buildString t b"
  note w = buildString_props [OF assms(1), of t]
  have len: "length_b ?B = length_b b + length (ser_bits t)"
    using w by (simp add: length_b_content del: length_content)
  have cov: "covered ?B"
    using w by (simp add: inv_covered)
  have u: "unread ?B = ser_bits t @ []"
    using w by (simp add: unread_def assms(2))
  have p: "pos ?B = length_b b"
    using w by (simp add: assms(2))
  have fuel: "depth t < Suc (length_b ?B - pos ?B)"
    using length_ser_bits_depth [of t] by (simp add: len p)
  show ?thesis
    unfolding unserialize_def
    using unserialize_buildTree_ser [OF cov u assms(3) fuel] by (simp add: len p)
qed

text \<open>
  Claim C2. \<^verbatim>\<open>writeString\<close> writes each character of the string as one octet and
  no terminator; \<^verbatim>\<open>readString\<close> reads octets until one equals the delimiter and
  returns the string before it, with the delimiter consumed but excluded. Hence, when no
  character of \<open>s\<close> has the delimiter's octet value, writing \<open>s\<close>, writing the delimiter
  and reading at the written position returns \<open>s\<close> and leaves the read position behind
  the delimiter.
\<close>

theorem writeString_readString_roundtrip:
  assumes "BitBuf_inv b" "pos b = length_b b" "d < 256" "\<forall>c \<in> set s. of_char c \<noteq> d"
  shows "content (writeString s b) = content b @ concat (map (\<lambda>c. octet_bits (of_char c)) s)
    \<and> readString d (writeOctet d (writeString s b))
      = (Inr s, (writeOctet d (writeString s b))\<lparr>pos := length_b b + 8 * (length s + 1)\<rparr>)"
proof -
  note ws = writeString_props [OF assms(1), of s]
  from ws have inv: "BitBuf_inv (writeString s b)" ..
  note wo = writeOctet_props [OF inv, of d]
  let ?B = "writeOctet d (writeString s b)"
  have cov: "covered ?B"
    using wo(1) by (rule inv_covered)
  have u: "unread ?B = str_bits s @ octet_bits d @ []"
    by (simp add: unread_def wo ws assms(2))
  have p: "pos ?B = length_b b"
    by (simp add: wo ws assms(2))
  show ?thesis
    using readString_unread(1) [OF cov u assms(3,4)] ws by (simp add: p str_bits_def)
qed

theorem writeString_readString_roundtrip_witness:
  "BitBuf_inv BitBuf_new \<and> pos BitBuf_new = length_b BitBuf_new \<and> (0::nat) < 256
    \<and> readString 0 (writeOctet 0 (writeString ''ab'' BitBuf_new))
      = (Inr ''ab'', (writeOctet 0 (writeString ''ab'' BitBuf_new))\<lparr>pos := 24\<rparr>)"
proof -
  have h: "pos BitBuf_new = length_b BitBuf_new" "(0::nat) < 256" "\<forall>c \<in> set ''ab''. of_char c \<noteq> (0::nat)"
    by (simp_all add: new_fields)
  show ?thesis
    using writeString_readString_roundtrip [OF inv_new h] inv_new h(1) by (simp add: new_fields)
qed

text \<open>
  Claim C3. For every Huffman tree in which every internal node has two children and
  every leaf carries a non-empty token with none of the reserved octets \<open>0x00\<close>,
  \<open>0x01\<close> and \<open>0x03\<close>, serializing the tree into a bit stream and then deserializing
  from that stream returns the tree of the same shape with the same tokens at the leaves
  and null tokens at the internal nodes (the occurrence counters, which the stream does
  not hold, are 0), and leaves nothing of the stream unread.
\<close>

theorem serialize_unserialize_roundtrip:
  assumes "BitBuf_inv b" "pos b = length_b b" "huffman_tree t"
  shows "unserialize (serialize t b)
    = (Inr (forget_occurrences (Some t)), (serialize t b)\<lparr>pos := length_b (serialize t b)\<rparr>)"
  unfolding serialize_def
  using assms(1,2) huffman_tree_readable [OF assms(3)] by (rule unserialize_serialized)

theorem serialize_unserialize_roundtrip_witness:
  "BitBuf_inv BitBuf_new \<and> pos BitBuf_new = length_b BitBuf_new
    \<and> huffman_tree (Node (Some (Node None None (Some ''e'') 1)) (Some (Node None None (Some ''color'') 1)) None 2)
    \<and> fst (unserialize (serialize
         (Node (Some (Node None None (Some ''e'') 1)) (Some (Node None None (Some ''color'') 1)) None 2)
         BitBuf_new))
      = Inr (Some (Node (Some (Node None None (Some ''e'') 0)) (Some (Node None None (Some ''color'') 0)) None 0))"
proof -
  have h: "pos BitBuf_new = length_b BitBuf_new"
    by (simp add: new_fields)
  have t: "huffman_tree (Node (Some (Node None None (Some ''e'') 1)) (Some (Node None None (Some ''color'') 1)) None 2)"
    by (simp add: plain_token_def NULL_NODE_def NULL_TOKEN_def SPLIT_def)
  show ?thesis
    using serialize_unserialize_roundtrip [OF inv_new h t] inv_new h t by simp
qed


lemma unserialize_step:
  assumes "readString SPLIT b = (Inr val, b1)"
  shows "unserialize b =
    (if charCodeAt val 0 = Some NULL_NODE then (Inr None, b1)
     else case unserialize_buildTree (length_b b - pos b) b1 of
            (Inl e, b2) \<Rightarrow> (Inl e, b2)
          | (Inr l, b2) \<Rightarrow>
              (case unserialize_buildTree (length_b b - pos b) b2 of
                 (Inl e, b3) \<Rightarrow> (Inl e, b3)
               | (Inr r, b3) \<Rightarrow>
                   (Inr (Some (Node l r (if charCodeAt val 0 = Some NULL_TOKEN then None else Some val) 0)), b3)))"
  by (simp add: unserialize_def assms Let_def)

text \<open>
  Claim C4, as the code has it. During tree deserialization the markers are first-octet
  markers: a delimited field is treated as an absent (null) node exactly when its first
  octet is \<open>0x00\<close>, and as an internal node with null token exactly when its first
  octet is \<open>0x01\<close>, whatever follows the marker in the field; for every other field
  content, the empty one included, the created node's token is the entire field content.
  The children are read after the field; when reading them fails, it fails with the
  stream's index error, never because the depth counter of the model ran out.
  (The claim as stated, with "is the sentinel alone" in the place of "begins with the
  sentinel", fails: see the counterexample below.)
\<close>

theorem unserialize_field_markers:
  assumes "readString SPLIT b = (Inr val, b1)"
  shows "(charCodeAt val 0 = Some NULL_NODE \<longrightarrow> unserialize b = (Inr None, b1))
    \<and> (charCodeAt val 0 \<noteq> Some NULL_NODE \<longrightarrow>
         (\<forall>t b'. unserialize b = (Inr t, b') \<longrightarrow>
            (\<exists>l r. t = Some (Node l r (if charCodeAt val 0 = Some NULL_TOKEN then None else Some val) 0))))
    \<and> (\<forall>e b'. unserialize b = (Inl e, b') \<longrightarrow> e = IndexError)"
proof (intro conjI)
  show "charCodeAt val 0 = Some NULL_NODE \<longrightarrow> unserialize b = (Inr None, b1)"
    unfolding unserialize_step [OF assms] by simp
  show "charCodeAt val 0 \<noteq> Some NULL_NODE \<longrightarrow>
         (\<forall>t b'. unserialize b = (Inr t, b') \<longrightarrow>
            (\<exists>l r. t = Some (Node l r (if charCodeAt val 0 = Some NULL_TOKEN then None else Some val) 0)))"
    unfolding unserialize_step [OF assms] by (auto split: prod.splits sum.splits)
  show "\<forall>e b'. unserialize b = (Inl e, b') \<longrightarrow> e = IndexError"
  proof (intro allI impI)
    fix e b' assume "unserialize b = (Inl e, b')"
    then have "fst (unserialize b) = Inl e"
      by simp
    then show "e = IndexError"
      using unserialize_errors [of b] by (cases e) simp_all
  qed
qed


lemma serialized_leaf_field:
  fixes t :: string and occ :: nat
  assumes "\<forall>c \<in> set t. (of_char c :: nat) \<noteq> SPLIT"
  defines "B \<equiv> serialize (Node None None (Some t) occ) BitBuf_new"
  shows "covered B" "pos B = 0" "length_b B = 8 * (length t + 1) + 32"
    "readString SPLIT B = (Inr t, B\<lparr>pos := 8 * (length t + 1)\<rparr>)"
    "unread (B\<lparr>pos := 8 * (length t + 1)\<rparr>) = ser_bits None @ ser_bits None @ []"
proof -
  note w = buildString_props [OF inv_new, of "Some (Node None None (Some t) occ)"]
  show cov: "covered B"
    using w by (simp add: B_def serialize_def inv_covered)
  show p: "pos B = 0"
    using w by (simp add: B_def serialize_def new_fields)
  have c: "content B = str_bits t @ octet_bits SPLIT @ ser_bits None @ ser_bits None @ []"
    using w by (simp add: B_def serialize_def content_new)
  then have "length (content B) = 8 * (length t + 1) + 32"
    by simp
  then show "length_b B = 8 * (length t + 1) + 32"
    by simp
  have u: "unread B = str_bits t @ octet_bits SPLIT @ (ser_bits None @ ser_bits None @ [])"
    by (simp add: unread_def p c)
  have d: "SPLIT < 256"
    by (simp add: SPLIT_def)
  show "readString SPLIT B = (Inr t, B\<lparr>pos := 8 * (length t + 1)\<rparr>)"
    using readString_unread(1) [OF cov u d assms(1)] by (simp add: p)
  show "unread (B\<lparr>pos := 8 * (length t + 1)\<rparr>) = ser_bits None @ ser_bits None @ []"
    using readString_unread(2) [OF cov u d assms(1)] by (simp add: p)
qed

theorem unserialize_field_markers_counterexample:
  "readString SPLIT (serialize (Node None None (Some [CHR 0x00, CHR ''A'']) 5) BitBuf_new)
     = (Inr [CHR 0x00, CHR ''A''], (serialize (Node None None (Some [CHR 0x00, CHR ''A'']) 5) BitBuf_new)\<lparr>pos := 24\<rparr>)
   \<and> [CHR 0x00, CHR ''A''] \<noteq> [char_of NULL_NODE]
   \<and> unserialize (serialize (Node None None (Some [CHR 0x00, CHR ''A'']) 5) BitBuf_new)
     = (Inr None, (serialize (Node None None (Some [CHR 0x00, CHR ''A'']) 5) BitBuf_new)\<lparr>pos := 24\<rparr>)
   \<and> readString SPLIT (serialize (Node None None (Some [CHR 0x01, CHR ''A'']) 5) BitBuf_new)
     = (Inr [CHR 0x01, CHR ''A''], (serialize (Node None None (Some [CHR 0x01, CHR ''A'']) 5) BitBuf_new)\<lparr>pos := 24\<rparr>)
   \<and> [CHR 0x01, CHR ''A''] \<noteq> [char_of NULL_TOKEN]
   \<and> unserialize (serialize (Node None None (Some [CHR 0x01, CHR ''A'']) 5) BitBuf_new)
     = (Inr (Some (Node None None None 0)), (serialize (Node None None (Some [CHR 0x01, CHR ''A'']) 5) BitBuf_new)\<lparr>pos := 56\<rparr>)"
proof -
  let ?t0 = "[CHR 0x00, CHR ''A'']" and ?t1 = "[CHR 0x01, CHR ''A'']"
  let ?B0 = "serialize (Node None None (Some ?t0) 5) BitBuf_new"
  let ?B1 = "serialize (Node None None (Some ?t1) 5) BitBuf_new"
  have n0: "\<forall>c \<in> set ?t0. (of_char c :: nat) \<noteq> SPLIT" and n1: "\<forall>c \<in> set ?t1. (of_char c :: nat) \<noteq> SPLIT"
    by (simp_all add: SPLIT_def)
  note f0 = serialized_leaf_field [OF n0, of 5]
  note f1 = serialized_leaf_field [OF n1, of 5]
  have r0: "readString SPLIT ?B0 = (Inr ?t0, ?B0\<lparr>pos := 24\<rparr>)"
    using f0(4) by simp
  have r1: "readString SPLIT ?B1 = (Inr ?t1, ?B1\<lparr>pos := 24\<rparr>)"
    using f1(4) by simp
  have u0: "unserialize ?B0 = (Inr None, ?B0\<lparr>pos := 24\<rparr>)"
    unfolding unserialize_step [OF r0] by (simp add: charCodeAt_def NULL_NODE_def)
  let ?b1 = "?B1\<lparr>pos := 24\<rparr>"
  have c1: "covered ?b1"
    using f1(1) by simp
  have un1: "unread ?b1 = ser_bits None @ (ser_bits None @ [])"
    using f1(5) by simp
  have l: "unserialize_buildTree (length_b ?B1 - pos ?B1) ?b1 = (Inr None, ?B1\<lparr>pos := 40\<rparr>)"
    and un2: "unread (?B1\<lparr>pos := 40\<rparr>) = ser_bits None @ []"
    using unserialize_buildTree_ser [OF c1 un1, of "length_b ?B1 - pos ?B1"]
    by (simp_all add: f1(2,3))
  have c2: "covered (?B1\<lparr>pos := 40\<rparr>)"
    using f1(1) by simp
  have r: "unserialize_buildTree (length_b ?B1 - pos ?B1) (?B1\<lparr>pos := 40\<rparr>) = (Inr None, ?B1\<lparr>pos := 56\<rparr>)"
    using unserialize_buildTree_ser [OF c2 un2, of "length_b ?B1 - pos ?B1"]
    by (simp add: f1(2,3))
  have u1: "unserialize ?B1 = (Inr (Some (Node None None None 0)), ?B1\<lparr>pos := 56\<rparr>)"
    unfolding unserialize_step [OF r1] l by (simp add: r charCodeAt_def NULL_NODE_def NULL_TOKEN_def del: unserialize_buildTree.simps)
  show ?thesis
    using r0 r1 u0 u1 by (simp add: NULL_NODE_def NULL_TOKEN_def)
qed

theorem unserialize_field_markers_witness:
  "readString SPLIT (serialize (Node None None (Some ''A'') 5) BitBuf_new)
     = (Inr ''A'', (serialize (Node None None (Some ''A'') 5) BitBuf_new)\<lparr>pos := 16\<rparr>)
   \<and> charCodeAt ''A'' 0 \<noteq> Some NULL_NODE \<and> charCodeAt ''A'' 0 \<noteq> Some NULL_TOKEN
   \<and> (\<exists>l r. fst (unserialize (serialize (Node None None (Some ''A'') 5) BitBuf_new))
          = Inr (Some (Node l r (Some ''A'') 0)))"
proof -
  let ?B = "serialize (Node None None (Some ''A'') 5) BitBuf_new"
  have n: "\<forall>c \<in> set ''A''. (of_char c :: nat) \<noteq> SPLIT"
    by (simp add: SPLIT_def)
  have r: "readString SPLIT ?B = (Inr ''A'', ?B\<lparr>pos := 16\<rparr>)"
    using serialized_leaf_field(4) [OF n, of 5] by simp
  have c: "charCodeAt ''A'' 0 \<noteq> Some NULL_NODE" "charCodeAt ''A'' 0 \<noteq> Some NULL_TOKEN"
    by (simp_all add: charCodeAt_def NULL_NODE_def NULL_TOKEN_def)
  have h: "pos BitBuf_new = length_b BitBuf_new"
    by (simp add: new_fields)
  have rt: "readable_tokens (Some (Node None None (Some ''A'') 5))"
    by (simp add: charCodeAt_def NULL_NODE_def NULL_TOKEN_def SPLIT_def)
  have "unserialize ?B = (Inr (forget_occurrences (Some (Node None None (Some ''A'') 5))), ?B\<lparr>pos := length_b ?B\<rparr>)"
    unfolding serialize_def using inv_new h rt by (rule unserialize_serialized)
  then have u: "fst (unserialize ?B) = Inr (Some (Node None None (Some ''A'') 0))"
    by simp
  show ?thesis
    using unserialize_field_markers [OF r] r c u by simp
qed

section \<open>Claims about the Huffman coder\<close>

lemma set_items [simp]: "set (items obj) = set obj"
  by (auto simp add: items_def)

lemma code_pairs_prefix: "(k, c) \<in> code_pairs t p \<Longrightarrow> prefix p c"
proof (induction t p arbitrary: k c rule: code_pairs.induct)
  case (1 p)
  then show ?case by simp
next
  case (2 l r tok occ p)
  show ?case
  proof (cases tok)
    case None
    with "2.prems" have "(k, c) \<in> code_pairs l (p @ ''0'') \<or> (k, c) \<in> code_pairs r (p @ ''1'')"
      by simp
    then have "prefix (p @ ''0'') c \<or> prefix (p @ ''1'') c"
      using "2.IH" None by blast
    then show ?thesis
      by (auto dest: append_prefixD)
  next
    case (Some t)
    with "2.prems" show ?thesis by simp
  qed
qed

lemma branches_differ:
  assumes "prefix (p @ ''0'') c1" "prefix (p @ ''1'') c2"
  shows "\<not> prefix c1 c2" "\<not> prefix c2 c1"
proof -
  obtain x where c1: "c1 = p @ ''0'' @ x"
    using assms(1) by (auto simp add: prefix_def)
  obtain y where c2: "c2 = p @ ''1'' @ y"
    using assms(2) by (auto simp add: prefix_def)
  show "\<not> prefix c1 c2"
    unfolding c1 c2 by (auto simp add: prefix_def)
  show "\<not> prefix c2 c1"
    unfolding c1 c2 by (auto simp add: prefix_def)
qed

lemma code_pairs_prefix_free:
  assumes "(k1, c1) \<in> code_pairs t p" "(k2, c2) \<in> code_pairs t p" "k1 \<noteq> k2"
  shows "\<not> prefix c1 c2"
  using assms
proof (induction t p arbitrary: k1 c1 k2 c2 rule: code_pairs.induct)
  case (1 p)
  then show ?case by simp
next
  case (2 l r tok occ p)
  show ?case
  proof (cases tok)
    case (Some t)
    with "2.prems" show ?thesis by simp
  next
    case None
    have m1: "(k1, c1) \<in> code_pairs l (p @ ''0'') \<or> (k1, c1) \<in> code_pairs r (p @ ''1'')"
      and m2: "(k2, c2) \<in> code_pairs l (p @ ''0'') \<or> (k2, c2) \<in> code_pairs r (p @ ''1'')"
      using "2.prems" None by simp_all
    from m1 m2 show ?thesis
    proof (elim disjE)
      assume "(k1, c1) \<in> code_pairs l (p @ ''0'')" "(k2, c2) \<in> code_pairs l (p @ ''0'')"
      then show ?thesis
        using "2.IH"(1) [OF None] "2.prems"(3) by blast
    next
      assume "(k1, c1) \<in> code_pairs r (p @ ''1'')" "(k2, c2) \<in> code_pairs r (p @ ''1'')"
      then show ?thesis
        using "2.IH"(2) [OF None] "2.prems"(3) by blast
    next
      assume "(k1, c1) \<in> code_pairs l (p @ ''0'')" "(k2, c2) \<in> code_pairs r (p @ ''1'')"
      then show ?thesis
        using code_pairs_prefix branches_differ(1) by blast
    next
      assume "(k1, c1) \<in> code_pairs r (p @ ''1'')" "(k2, c2) \<in> code_pairs l (p @ ''0'')"
      then show ?thesis
        using code_pairs_prefix branches_differ(2) by blast
    qed
  qed
qed

lemma fst_code_pairs: "full t \<Longrightarrow> fst ` code_pairs t p = leaf_tokens t"
proof (induction t p rule: code_pairs.induct)
  case (1 p)
  then show ?case by simp
next
  case (2 l r tok occ p)
  then show ?case
    by (cases tok) (simp_all add: image_Un)
qed

lemma walk_full:
  assumes "full t"
  shows "\<exists>m'. walk t p m = Inr m' \<and> dom m' = dom m \<union> leaf_tokens t
    \<and> (\<forall>k c. m' k = Some c \<longrightarrow> m k = Some c \<or> (k, c) \<in> code_pairs t p)"
  using assms
proof (induction t p m rule: walk.induct)
  case (1 pre m)
  then show ?case by simp
next
  case (2 l r tok occ pre m)
  show ?case
  proof (cases tok)
    case (Some t)
    then show ?thesis
      by (auto split: if_splits)
  next
    case None
    have fl: "full l" and fr: "full r"
      using "2.prems" None by simp_all
    obtain m1 where w1: "walk l (pre @ ''0'') m = Inr m1" and d1: "dom m1 = dom m \<union> leaf_tokens l"
      and c1: "\<forall>k c. m1 k = Some c \<longrightarrow> m k = Some c \<or> (k, c) \<in> code_pairs l (pre @ ''0'')"
      using "2.IH"(1) [OF None fl] by blast
    obtain m2 where w2: "walk r (pre @ ''1'') m1 = Inr m2" and d2: "dom m2 = dom m1 \<union> leaf_tokens r"
      and c2: "\<forall>k c. m2 k = Some c \<longrightarrow> m1 k = Some c \<or> (k, c) \<in> code_pairs r (pre @ ''1'')"
      using "2.IH"(2) [OF None w1 fr] by blast
    have "walk (Some (Node l r tok occ)) pre m = Inr m2"
      by (simp add: None w1 w2)
    moreover have "dom m2 = dom m \<union> leaf_tokens (Some (Node l r tok occ))"
      using d1 d2 None by auto
    moreover have "\<forall>k c. m2 k = Some c \<longrightarrow> m k = Some c \<or> (k, c) \<in> code_pairs (Some (Node l r tok occ)) pre"
      using c1 c2 None by auto
    ultimately show ?thesis
      by blast
  qed
qed


lemma last_two:
  assumes "1 < length xs"
  shows "xs = butlast (butlast xs) @ [last (butlast xs), last xs]"
proof -
  have "xs \<noteq> []"
    using assms by (cases xs) simp_all
  moreover have "butlast xs \<noteq> []"
    using assms by (cases xs rule: rev_cases) auto
  ultimately have "xs \<noteq> []" "butlast xs \<noteq> []"
    by simp_all
  then have "xs = butlast xs @ [last xs]" "butlast xs = butlast (butlast xs) @ [last (butlast xs)]"
    by simp_all
  then show ?thesis
    by (metis append.assoc append_Cons append_Nil)
qed

lemma buildTree_loop_forest:
  assumes "base \<noteq> []" "\<forall>n \<in> set base. full (Some n)"
  shows "\<exists>root. buildTree_loop base = [root] \<and> full (Some root)
    \<and> leaf_tokens (Some root) = (\<Union>n \<in> set base. leaf_tokens (Some n))
    \<and> (1 < length base \<longrightarrow> token root = None)"
  using assms
proof (induction base rule: buildTree_loop.induct)
  case (1 base)
  show ?case
  proof (cases "1 < length base")
    case False
    then obtain n where b: "base = [n]"
      using "1.prems"(1) by (cases base) auto
    have "buildTree_loop base = base"
      using False by (subst buildTree_loop.simps) simp
    then show ?thesis
      using "1.prems"(2) b by simp
  next
    case True
    define base1 where "base1 = sort_base base"
    define l where "l = last base1"
    define base2 where "base2 = butlast base1"
    define r where "r = last base2"
    define base3 where "base3 = butlast base2"
    define n where "n = Node (Some l) (Some r) None (0 + occurrences l + occurrences r)"
    have s1: "set base1 = set base" and len1: "1 < length base1"
      using True by (simp_all add: base1_def sort_base_def)
    have split: "base1 = base3 @ [r, l]"
      unfolding base3_def r_def l_def base2_def using len1 by (rule last_two)
    have sets: "set base = set base3 \<union> {r, l}"
      using s1 split by (metis list.simps(15) set_append empty_set Un_insert_right sup_bot.right_neutral)
    have fl: "full (Some l)" and fr: "full (Some r)"
      using "1.prems"(2) sets by auto
    have fn: "full (Some n)"
      using fl fr by (simp add: n_def)
    have all: "\<forall>x \<in> set (base3 @ [n]). full (Some x)"
      using "1.prems"(2) sets fn by auto
    have step: "buildTree_loop base = buildTree_loop (base3 @ [n])"
      using True
      by (subst buildTree_loop.simps)
        (simp add: Let_def base1_def l_def base2_def r_def base3_def n_def)
    obtain root where res: "buildTree_loop (base3 @ [n]) = [root]" and full: "full (Some root)"
      and toks: "leaf_tokens (Some root) = (\<Union>x \<in> set (base3 @ [n]). leaf_tokens (Some x))"
      and top: "1 < length (base3 @ [n]) \<longrightarrow> token root = None"
      using "1.IH" [OF True base1_def l_def base2_def r_def base3_def n_def _ all] by auto
    have "(\<Union>x \<in> set (base3 @ [n]). leaf_tokens (Some x)) = (\<Union>x \<in> set base. leaf_tokens (Some x))"
      by (auto simp add: sets n_def)
    moreover have "token root = None"
    proof (cases "1 < length (base3 @ [n])")
      case True
      then show ?thesis using top by simp
    next
      case False
      then have "buildTree_loop (base3 @ [n]) = base3 @ [n]"
        by (subst buildTree_loop.simps) simp
      moreover have "base3 = []"
        using False by simp
      ultimately have "root = n"
        using res by simp
      then show ?thesis
        by (simp add: n_def)
    qed
    ultimately show ?thesis
      using step res full toks by simp
  qed
qed


lemma length_items [simp]: "length (items obj) = length obj"
  by (simp add: items_def sum_length_filter_compl)

lemma built_tree:
  assumes "freq \<noteq> []"
  shows "\<exists>root. tree (buildTree (Puffman_new\<lparr>tokenOccurrences := freq\<rparr>)) = Some root
    \<and> full (Some root) \<and> leaf_tokens (Some root) = fst ` set freq
    \<and> (2 \<le> length freq \<longrightarrow> token root = None)"
proof -
  define base where "base = map (\<lambda>(tok, occ). Node_new (Some tok) occ) (items freq)"
  have "items freq \<noteq> []"
    using assms by (metis length_items length_0_conv)
  then have ne: "base \<noteq> []"
    by (simp add: base_def)
  have all: "\<forall>n \<in> set base. full (Some n)"
    by (auto simp add: base_def Node_new_def)
  obtain root where res: "buildTree_loop base = [root]" and f: "full (Some root)"
    and toks: "leaf_tokens (Some root) = (\<Union>n \<in> set base. leaf_tokens (Some n))"
    and top: "1 < length base \<longrightarrow> token root = None"
    using buildTree_loop_forest [OF ne all] by blast
  have "(\<Union>n \<in> set base. leaf_tokens (Some n)) = fst ` set freq"
    by (auto simp add: base_def Node_new_def) force
  moreover have "length base = length freq"
    by (simp add: base_def)
  moreover have "tree (buildTree (Puffman_new\<lparr>tokenOccurrences := freq\<rparr>)) = Some root"
    using res by (simp add: buildTree_def base_def [symmetric])
  ultimately show ?thesis
    using f toks top by auto
qed

text \<open>
  Claim C5. For every frequency table with at least two distinct observed tokens, the
  token-to-bitstring map derived from the built Huffman tree is prefix-free: no token's
  code is a prefix of (in particular, equal to) a different token's code. The table is
  the association list of the tokens with their counts, its keys distinct; building the
  tree and the map succeeds, every token of the table gets a code, and no code is empty.
\<close>

theorem huffman_codes_prefix_free:
  assumes "distinct (map fst freq)" "2 \<le> length freq"
  shows "\<exists>p. buildMapToBin (buildTree (Puffman_new\<lparr>tokenOccurrences := freq\<rparr>)) = Inr p
    \<and> dom (mapToBin p) = fst ` set freq
    \<and> (\<forall>t1 t2 c1 c2. mapToBin p t1 = Some c1 \<and> mapToBin p t2 = Some c2 \<and> t1 \<noteq> t2
          \<longrightarrow> \<not> prefix c1 c2)
    \<and> (\<forall>t c. mapToBin p t = Some c \<longrightarrow> c \<noteq> [])"
proof -
  let ?P = "buildTree (Puffman_new\<lparr>tokenOccurrences := freq\<rparr>)"
  have ne: "freq \<noteq> []"
    using assms(2) by auto
  obtain root where t: "tree ?P = Some root" and f: "full (Some root)"
    and toks: "leaf_tokens (Some root) = fst ` set freq" and top: "token root = None"
    using built_tree [OF ne] assms(2) by blast
  have m0: "mapToBin ?P = Map.empty"
    by (simp add: buildTree_def Puffman_new_def Let_def)
  obtain m where w: "walk (Some root) [] Map.empty = Inr m" and d: "dom m = leaf_tokens (Some root)"
    and c: "\<forall>k c. m k = Some c \<longrightarrow> (k, c) \<in> code_pairs (Some root) []"
    using walk_full [OF f, of "[]" Map.empty] by auto
  have res: "buildMapToBin ?P = Inr (?P\<lparr>mapToBin := m\<rparr>)"
    by (simp add: buildMapToBin_def t m0 w)
  have pf: "\<not> prefix c1 c2" if "m t1 = Some c1" "m t2 = Some c2" "t1 \<noteq> t2" for t1 t2 c1 c2
    using code_pairs_prefix_free [of t1 c1 "Some root" "[]" t2 c2] c that by blast
  have nonempty: "c' \<noteq> []" if "m t' = Some c'" for t' c'
  proof -
    obtain l r occ where root: "root = Node l r None occ"
      using top by (cases root) simp
    have "(t', c') \<in> code_pairs l ''0'' \<union> code_pairs r ''1''"
      using c that by (auto simp add: root)
    then have "prefix ''0'' c' \<or> prefix ''1'' c'"
      using code_pairs_prefix by blast
    then show ?thesis
      by auto
  qed
  show ?thesis
    using res d toks pf nonempty by auto
qed

theorem huffman_codes_prefix_free_witness:
  "distinct (map fst [(''color'', 1::nat), (''e'', 1)]) \<and> 2 \<le> length [(''color'', 1::nat), (''e'', 1)]
   \<and> (\<exists>p. buildMapToBin (buildTree (Puffman_new\<lparr>tokenOccurrences := [(''color'', 1), (''e'', 1)]\<rparr>)) = Inr p
        \<and> dom (mapToBin p) = {''color'', ''e''})"
proof -
  have h: "distinct (map fst [(''color'', 1::nat), (''e'', 1)])" "2 \<le> length [(''color'', 1::nat), (''e'', 1)]"
    by simp_all
  show ?thesis
    using huffman_codes_prefix_free [OF h] h by auto
qed


lemma items_single: "items [e] = [e]"
  by (simp add: items_def)

lemma single_tree:
  "buildTree (Puffman_new\<lparr>tokenOccurrences := [(tok, n)]\<rparr>)
    = Puffman_new\<lparr>tokenOccurrences := [(tok, n)], tree := Some (Node None None (Some tok) n)\<rparr>"
  by (simp add: buildTree_def items_single Node_new_def buildTree_loop.simps)

lemma findToken_leaf:
  "findToken next (p\<lparr>tree := Some (Node None None (Some tok) n)\<rparr>) s =
     (case next s of (Inl e, s') \<Rightarrow> (Inl e, s') | (Inr dir, s') \<Rightarrow> (Inl TypeError, s'))"
  by (simp add: findToken_def split: prod.splits sum.splits)

text \<open>
  Claim C6 (not met by the code). With exactly one distinct token observed,
  \<^verbatim>\<open>buildTree\<close> leaves the single leaf as the whole tree and \<^verbatim>\<open>buildMapToBin\<close>
  gives the token the empty code, so encoding it emits no bits. \<^verbatim>\<open>findToken\<close>,
  however, pulls a bit and steps to a child before it looks at a token: on the one-leaf
  tree the child is null and reading its token is a TypeError (or the bit source fails
  first). Whatever the bit source, decoding never returns the token.
\<close>

theorem single_token_not_decodable:
  "tree (buildTree (Puffman_new\<lparr>tokenOccurrences := [(tok, n)]\<rparr>)) = Some (Node None None (Some tok) n)
   \<and> (\<exists>p. buildMapToBin (buildTree (Puffman_new\<lparr>tokenOccurrences := [(tok, n)]\<rparr>)) = Inr p
        \<and> mapToBin p tok = Some []
        \<and> Prop_dump p tok b = Inr b
        \<and> (\<forall>t. fst (findToken nx p s) \<noteq> Inr t)
        \<and> (\<forall>t. fst (Prop_eat p b) \<noteq> Inr t))"
proof -
  let ?P = "Puffman_new\<lparr>tokenOccurrences := [(tok, n)], tree := Some (Node None None (Some tok) n)\<rparr>"
  let ?Q = "?P\<lparr>mapToBin := [tok \<mapsto> []]\<rparr>"
  have m: "buildMapToBin ?P = Inr ?Q"
    by (simp add: buildMapToBin_def Puffman_new_def)
  have q: "?Q = (?P\<lparr>mapToBin := [tok \<mapsto> []]\<rparr>)\<lparr>tree := Some (Node None None (Some tok) n)\<rparr>"
    by simp
  have f: "fst (findToken nx ?Q st) \<noteq> Inr t" for nx :: "'x \<Rightarrow> nat result \<times> 'x" and st t
    by (subst q, subst findToken_leaf) (simp split: prod.splits sum.splits)
  have d: "Prop_dump ?Q tok b = Inr b"
    by (simp add: Prop_dump_def)
  show ?thesis
    unfolding single_tree using m d f [of nx s] f [of readBit b]
    by (auto simp add: Prop_eat_def)
qed

theorem single_token_not_decodable_instance:
  "tree (buildTree (see ''e'' Puffman_new)) = Some (Node None None (Some ''e'') 1)
   \<and> (\<exists>p. buildMapToBin (buildTree (see ''e'' Puffman_new)) = Inr p
        \<and> mapToBin p ''e'' = Some []
        \<and> Prop_dump p ''e'' BitBuf_new = Inr BitBuf_new
        \<and> fst (Prop_eat p BitBuf_new) = Inl IndexError
        \<and> fst (Prop_eat p (writeOctet 65 BitBuf_new)) = Inl TypeError)"
proof -
  have s: "see ''e'' Puffman_new = Puffman_new\<lparr>tokenOccurrences := [(''e'', 1)]\<rparr>"
    by (simp add: see_def Puffman_new_def)
  obtain p where p: "buildMapToBin (buildTree (Puffman_new\<lparr>tokenOccurrences := [(''e'', 1)]\<rparr>)) = Inr p"
    and c: "mapToBin p ''e'' = Some []" and d: "Prop_dump p ''e'' BitBuf_new = Inr BitBuf_new"
    using single_token_not_decodable [where tok = "''e''" and n = 1 and b = BitBuf_new and s = BitBuf_new and nx = readBit]
    by blast
  have t: "tree p = Some (Node None None (Some ''e'') 1)"
    using p by (auto simp add: single_tree buildMapToBin_def split: sum.splits)
  have r0: "readBit BitBuf_new = (Inl IndexError, BitBuf_new)"
    by (simp add: readBit_fail new_fields)
  note w = writeOctet_props [OF inv_new, of 65]
  have "covered (writeOctet 65 BitBuf_new)" "pos (writeOctet 65 BitBuf_new) < length_b (writeOctet 65 BitBuf_new)"
    using w by (simp_all add: inv_covered new_fields)
  then have r1: "readBit (writeOctet 65 BitBuf_new)
      = (Inr (bit_at (writeOctet 65 BitBuf_new) (pos (writeOctet 65 BitBuf_new))),
          (writeOctet 65 BitBuf_new)\<lparr>pos := pos (writeOctet 65 BitBuf_new) + 1\<rparr>)"
    by (rule readBit_ok)
  have e0: "fst (Prop_eat p BitBuf_new) = Inl IndexError"
    by (simp add: Prop_eat_def findToken_def t r0)
  have e1: "fst (Prop_eat p (writeOctet 65 BitBuf_new)) = Inl TypeError"
    by (simp add: Prop_eat_def findToken_def t r1)
  show ?thesis
    unfolding s using p c d e0 e1
    by (simp add: single_tree)
qed

section \<open>The codec on a concrete stylesheet\<close>

lemma bit_at_le1: "bit_at b i = of_bool (bit_at b i \<noteq> 0)"
  by (simp add: bit_at_eq)

lemma octet_at_content:
  assumes "p + 8 \<le> length_b b"
  shows "octet_at b p 0 0 = bits_value (take 8 (drop p (content b)))"
proof -
  define bs where "bs = map (\<lambda>x. x \<noteq> 0) (take 8 (drop p (content b)))"
  define v :: nat where "v = horner_sum of_bool 2 bs"
  have len: "length bs = 8"
    using assms by (simp add: bs_def)
  have nth: "bs ! j \<longleftrightarrow> bit_at b (p + j) \<noteq> 0" if "j < 8" for j
    using that assms by (simp add: bs_def content_nth)
  have "bit_at b (p + j) = drop_bit j v mod 2" if "j < 8" for j
  proof -
    have "bit v j \<longleftrightarrow> bs ! j"
      using that by (simp add: v_def bit_horner_sum_bit_iff len)
    then have "of_bool (bit v j) = bit_at b (p + j)"
      using nth [OF that] bit_at_le1 [of b "p + j"] by simp
    then show ?thesis
      by (simp only: drop_bit_mod2)
  qed
  then have "octet_at b p 0 0 = take_bit 8 v"
    by (rule octet_at_value)
  also have "\<dots> = horner_sum of_bool 2 (take 8 bs)"
    unfolding v_def by (rule take_bit_horner_sum_bit_eq)
  also have "\<dots> = v"
    by (simp add: v_def len)
  finally show ?thesis
    by (simp add: v_def bs_def bits_value_def)
qed

lemma readOctet_sim:
  assumes "covered b"
  shows "readOctet b =
    (if pos b + 8 \<le> length_b b
     then (Inr (bits_value (take 8 (drop (pos b) (content b)))), b\<lparr>pos := pos b + 8\<rparr>)
     else (Inl IndexError, b))"
  using assms by (simp add: readOctet_ok readOctet_fail octet_at_content)

lemma readBit_sim:
  assumes "covered b"
  shows "readBit b =
    (if pos b < length_b b then (Inr (content b ! pos b), b\<lparr>pos := pos b + 1\<rparr>)
     else (Inl IndexError, b))"
  using assms by (simp add: readBit_ok readBit_fail content_nth)

lemma length_b_pos [simp]: "length_b (b\<lparr>pos := p\<rparr>) = length_b b"
  by simp


lemma writer_simps:
  "BitBuf_inv b \<Longrightarrow> BitBuf_inv (push x b)"
  "BitBuf_inv b \<Longrightarrow> content (push x b) = content b @ [x mod 2]"
  "pos (push x b) = pos b"
  "BitBuf_inv b \<Longrightarrow> BitBuf_inv (writeOctet v b)"
  "BitBuf_inv b \<Longrightarrow> content (writeOctet v b) = content b @ octet_bits v"
  "BitBuf_inv b \<Longrightarrow> pos (writeOctet v b) = pos b"
  "BitBuf_inv b \<Longrightarrow> BitBuf_inv (writeString s b)"
  "BitBuf_inv b \<Longrightarrow> content (writeString s b) = content b @ str_bits s"
  "BitBuf_inv b \<Longrightarrow> pos (writeString s b) = pos b"
  "BitBuf_inv b \<Longrightarrow> BitBuf_inv (buildString t b)"
  "BitBuf_inv b \<Longrightarrow> content (buildString t b) = content b @ ser_bits t"
  "BitBuf_inv b \<Longrightarrow> pos (buildString t b) = pos b"
  by (simp_all add: inv_push content_push pos_push writeOctet_props writeString_props buildString_props)

lemma octet_bits_numeral:
  "octet_bits v = [v mod 2, v div 2 mod 2, v div 4 mod 2, v div 8 mod 2, v div 16 mod 2,
     v div 32 mod 2, v div 64 mod 2, v div 128 mod 2]"
  by (simp add: octet_bits_def upt_conv_Cons drop_bit_eq_div)

lemma scenario_tables:
  "loadFromAst [RuleNode \<lparr>selectors = Some [''a''], declarations = Some [Declaration ''color'' ''red'']\<rparr>] Puffman_new
    = (Inr \<lparr>tokenOccurrences = [(''color'', 1), (''e'', 1)],
            tree = Some (Node (Some (Node None None (Some ''e'') 1)) (Some (Node None None (Some ''color'') 1)) None 2),
            mapToBin = [''e'' \<mapsto> ''0'', ''color'' \<mapsto> ''1'']\<rparr>,
       [RuleNode \<lparr>selectors = Some [''a''], declarations = Some [Declaration ''color'' ''red'']\<rparr>])"
  by (simp add: loadFromAst_def groupBlocks_def see_def ESC_def Puffman_new_def buildTree_def items_def
      is_array_index_def is_digit_def Node_new_def buildTree_loop.simps sort_base_def buildMapToBin_def Let_def)


lemma scenario_dump:
  "\<exists>B. dump [RuleNode \<lparr>selectors = Some [''a''], declarations = Some [Declaration ''color'' ''red'']\<rparr>] BitBuf_new
      = (Inr B, [RuleNode \<lparr>selectors = Some [''a''], declarations = Some [Declaration ''color'' ''red'']\<rparr>])
    \<and> BitBuf_inv B \<and> pos B = 0 \<and> content B = scenario_bits"
  by (simp add: dump_def scenario_tables serializePreamble_def serialize_def groupBlocks_def
      Prop_dump_def StringEater_dump_def BlockType_dump_def ESC_def
      writer_simps inv_new content_new new_fields str_bits_def octet_bits_numeral
      NULL_NODE_def NULL_TOKEN_def SPLIT_def scenario_bits_def)


lemma fuel_numeral:
  "unserialize_buildTree (numeral k) b = unserialize_buildTree (Suc (pred_numeral k)) b"
  "selectors_loop (numeral k) sels b = selectors_loop (Suc (pred_numeral k)) sels b"
  "props_loop (numeral k) pf props b = props_loop (Suc (pred_numeral k)) pf props b"
  "rules_loop (numeral k) fuel pf rs b = rules_loop (Suc (pred_numeral k)) fuel pf rs b"
  "blocks_loop (numeral k) fuel pf blocks b = blocks_loop (Suc (pred_numeral k)) fuel pf blocks b"
  by (simp_all only: numeral_eq_Suc)

lemmas fuel_steps =
  fuel_numeral(1) [unfolded unserialize_buildTree.simps]
  fuel_numeral(2) [unfolded selectors_loop.simps]
  fuel_numeral(3) [unfolded props_loop.simps]
  fuel_numeral(4) [unfolded rules_loop.simps]
  fuel_numeral(5) [unfolded blocks_loop.simps]

lemma scenario_restore:
  assumes cov: "covered b" and p: "pos b = 0" and c: "content b = scenario_bits"
  shows "fst (restore b) = Inr (''a {'' @ NL @ ''  color: red;'' @ NL @ ''}'')"
proof -
  have "length_b b = length scenario_bits"
    by (simp add: c [symmetric])
  then have len: "length_b b = 238"
    by (simp add: scenario_bits_def)
  show ?thesis
    by (simp add: restore_def loadFromPreamble_def unserialize_def fuel_steps
        readString_def readString_loop.simps StringEater_eat_def StringEater_eat_loop.simps
        readOctet_sim readBit_sim cov p c len hasMore_def BlockType_eat_def Prop_eat_def
        findToken_def render_rule_def render_media_def NL_def ESC_def Buffer_toString_def
        char_of_eq_iff bits_value_def scenario_bits_def charCodeAt_def
        NULL_NODE_def NULL_TOKEN_def SPLIT_def Puffman_new_def Let_def)
qed

text \<open>
  Claim C1. The stylesheet tree with the one rule \<^verbatim>\<open>a\<close> and its one declaration
  \<^verbatim>\<open>color: red\<close> is grouped into one media block with the empty query; encoding
  it into a fresh bit stream succeeds, and decoding that stream yields exactly the text
  \<^verbatim>\<open>a {\n  color: red;\n}\<close>, with no media wrapper.
\<close>

theorem dump_restore_scenario:
  "fst (groupBlocks [RuleNode \<lparr>selectors = Some [''a''], declarations = Some [Declaration ''color'' ''red'']\<rparr>])
     = [MediaBlock None [] [\<lparr>selectors = Some [''a''], declarations = Some [Declaration ''color'' ''red'']\<rparr>]]
   \<and> (\<exists>B. dump [RuleNode \<lparr>selectors = Some [''a''], declarations = Some [Declaration ''color'' ''red'']\<rparr>] BitBuf_new
          = (Inr B, [RuleNode \<lparr>selectors = Some [''a''], declarations = Some [Declaration ''color'' ''red'']\<rparr>])
        \<and> fst (restore B) = Inr (''a {'' @ [CHR 0x0A] @ ''  color: red;'' @ [CHR 0x0A] @ ''}''))"
proof -
  obtain B where d: "dump [RuleNode \<lparr>selectors = Some [''a''], declarations = Some [Declaration ''color'' ''red'']\<rparr>] BitBuf_new
      = (Inr B, [RuleNode \<lparr>selectors = Some [''a''], declarations = Some [Declaration ''color'' ''red'']\<rparr>])"
    and inv: "BitBuf_inv B" and p: "pos B = 0" and c: "content B = scenario_bits"
    using scenario_dump by blast
  have "fst (restore B) = Inr (''a {'' @ NL @ ''  color: red;'' @ NL @ ''}'')"
    using inv_covered [OF inv] p c by (rule scenario_restore)
  then show ?thesis
    using d by (simp add: groupBlocks_def NL_def)
qed

section \<open>Encoding twice, and the stylesheet with an empty rule\<close>

lemma tables3:
  "buildTree \<lparr>tokenOccurrences = [(''color'', n), (''e'', n)], tree = None, mapToBin = Map.empty\<rparr>
    = \<lparr>tokenOccurrences = [(''color'', n), (''e'', n)],
        tree = Some (Node (Some (Node None None (Some ''e'') n)) (Some (Node None None (Some ''color'') n)) None (n + n)),
        mapToBin = Map.empty\<rparr>"
  by (simp add: buildTree_def items_def is_array_index_def is_digit_def Node_new_def
      buildTree_loop.simps sort_base_def Let_def)

lemma length_fold_push: "length_b (fold push xs b) = length_b b + length xs"
  by (induction xs arbitrary: b) (simp_all add: length_push)

lemma writer_length:
  "length_b (push x b) = Suc (length_b b)"
  "length_b (writeOctet v b) = length_b b + 8"
  "length_b (writeString s b) = length_b b + 8 * length s"
proof -
  show "length_b (push x b) = Suc (length_b b)"
    by (rule length_push)
  show w: "length_b (writeOctet v b) = length_b b + 8" for v b
    by (simp add: writeOctet_fold length_fold_push)
  show "length_b (writeString s b) = length_b b + 8 * length s"
    by (induction s arbitrary: b) (simp_all add: writeString_def w)
qed

lemma dump_media_first:
  "\<exists>B. dump [MediaNode [] [], RuleNode \<lparr>selectors = Some [''a''], declarations = Some [Declaration ''color'' ''red'']\<rparr>] BitBuf_new
      = (Inr B, [MediaNode [] [\<lparr>selectors = Some [''a''], declarations = Some [Declaration ''color'' ''red'']\<rparr>,
                               \<lparr>selectors = Some [''a''], declarations = Some [Declaration ''color'' ''red'']\<rparr>],
                 RuleNode \<lparr>selectors = Some [''a''], declarations = Some [Declaration ''color'' ''red'']\<rparr>])
    \<and> length_b B = 304"
  by (simp add: dump_def loadFromAst_def groupBlocks_def see_def ESC_def Puffman_new_def tables3
      buildMapToBin_def serializePreamble_def serialize_def
      Prop_dump_def StringEater_dump_def BlockType_dump_def
      writer_length new_fields NULL_NODE_def NULL_TOKEN_def SPLIT_def)


lemma dump_media_second:
  "\<exists>B. dump [MediaNode [] [\<lparr>selectors = Some [''a''], declarations = Some [Declaration ''color'' ''red'']\<rparr>,
                          \<lparr>selectors = Some [''a''], declarations = Some [Declaration ''color'' ''red'']\<rparr>],
             RuleNode \<lparr>selectors = Some [''a''], declarations = Some [Declaration ''color'' ''red'']\<rparr>] BitBuf_new
      = (Inr B, [MediaNode [] [\<lparr>selectors = Some [''a''], declarations = Some [Declaration ''color'' ''red'']\<rparr>,
                               \<lparr>selectors = Some [''a''], declarations = Some [Declaration ''color'' ''red'']\<rparr>,
                               \<lparr>selectors = Some [''a''], declarations = Some [Declaration ''color'' ''red'']\<rparr>,
                               \<lparr>selectors = Some [''a''], declarations = Some [Declaration ''color'' ''red'']\<rparr>],
                 RuleNode \<lparr>selectors = Some [''a''], declarations = Some [Declaration ''color'' ''red'']\<rparr>])
    \<and> length_b B = 436"
  by (simp add: dump_def loadFromAst_def groupBlocks_def see_def ESC_def Puffman_new_def tables3
      buildMapToBin_def serializePreamble_def serialize_def
      Prop_dump_def StringEater_dump_def BlockType_dump_def
      writer_length new_fields NULL_NODE_def NULL_TOKEN_def SPLIT_def)

text \<open>
  Grouping, and with it \<^verbatim>\<open>dump\<close>, leaves a tree as it is when none of its media
  nodes has the empty query.
\<close>

lemma groupBlocks_loop_unchanged:
  assumes "\<forall>m rs. MediaNode m rs \<in> set rest \<longrightarrow> m \<noteq> []"
    "\<forall>org m rs. MediaBlock org m rs \<in> set blocks \<and> org \<noteq> None \<longrightarrow> m \<noteq> []"
  shows "snd (groupBlocks_loop i rest blocks ast) = ast"
  using assms
proof (induction rest arbitrary: i blocks)
  case Nil
  then show ?case by simp
next
  case (Cons node rest)
  have rest: "\<forall>m rs. MediaNode m rs \<in> set rest \<longrightarrow> m \<noteq> []"
    using Cons.prems(1) by simp
  show ?case
  proof (cases node)
    case (RuleNode r)
    have fresh: "\<forall>org' m' rs'. MediaBlock org' m' rs' \<in> set (blocks @ [MediaBlock None [] [r]]) \<and> org' \<noteq> None \<longrightarrow> m' \<noteq> []"
      using Cons.prems(2) by auto
    note new = Cons.IH [OF rest fresh, of "i + 1"]
    show ?thesis
    proof (cases "blocks = []")
      case True
      then show ?thesis
        using RuleNode new by simp
    next
      case False
      then have lastin: "last blocks \<in> set blocks"
        by simp
      have but: "\<And>x. x \<in> set (butlast blocks) \<Longrightarrow> x \<in> set blocks"
        by (rule in_set_butlastD)
      show ?thesis
      proof (cases "last blocks")
        case (RawBlock str)
        then show ?thesis
          using False RuleNode new by simp
      next
        case (MediaBlock org m rs)
        show ?thesis
        proof (cases "m = []")
          case True
          have "MediaBlock org m rs \<in> set blocks"
            using lastin MediaBlock by simp
          then have "org \<noteq> None \<longrightarrow> m \<noteq> []"
            using Cons.prems(2) by blast
          then have org: "org = None"
            using True by blast
          have "\<forall>org' m' rs'. MediaBlock org' m' rs' \<in> set (butlast blocks @ [MediaBlock org m (rs @ [r])]) \<and> org' \<noteq> None \<longrightarrow> m' \<noteq> []"
            using Cons.prems(2) but org by auto
          from Cons.IH [OF rest this, of "i + 1"] show ?thesis
            using False RuleNode MediaBlock True org by simp
        next
          case notempty: False
          then show ?thesis
            using False RuleNode MediaBlock new by simp
        qed
      qed
    qed
  next
    case (MediaNode m rs)
    have "m \<noteq> []"
      using Cons.prems(1) MediaNode by simp
    then have "\<forall>org' m' rs'. MediaBlock org' m' rs' \<in> set (blocks @ [MediaBlock (Some i) m rs]) \<and> org' \<noteq> None \<longrightarrow> m' \<noteq> []"
      using Cons.prems(2) by auto
    from Cons.IH [OF rest this, of "i + 1"] show ?thesis
      using MediaNode by simp
  next
    case (OtherNode str)
    have raw: "\<forall>org' m' rs'. MediaBlock org' m' rs' \<in> set (blocks @ [RawBlock str]) \<and> org' \<noteq> None \<longrightarrow> m' \<noteq> []"
      using Cons.prems(2) by auto
    show ?thesis
      using OtherNode Cons.IH [OF rest raw, of "i + 1"] Cons.IH [OF rest Cons.prems(2), of "i + 1"]
      by (cases "str = []") simp_all
  qed
qed

lemma groupBlocks_unchanged:
  assumes "\<forall>m rs. MediaNode m rs \<in> set ast \<longrightarrow> m \<noteq> []"
  shows "snd (groupBlocks ast) = ast"
  unfolding groupBlocks_def using assms by (rule groupBlocks_loop_unchanged) simp

lemma dump_unchanged:
  assumes "\<forall>m rs. MediaNode m rs \<in> set ast \<longrightarrow> m \<noteq> []"
  shows "snd (dump ast b) = ast"
proof -
  obtain blocks where g: "groupBlocks ast = (blocks, ast)"
    using groupBlocks_unchanged [OF assms] by (cases "groupBlocks ast") simp
  show ?thesis
    by (simp add: dump_def loadFromAst_def g split: sum.splits prod.splits)
qed

text \<open>
  Claim C9 (not met by the code). Two sessions that encode the same stylesheet tree, each
  into a fresh bit stream, do not always produce the same stream: \<^verbatim>\<open>groupBlocks\<close>
  puts a media node of the tree itself on its block list and pushes a plain rule that
  follows a media node with an empty query onto that node's own rule array, so every
  call (there are two in each \<^verbatim>\<open>dump\<close>) adds the rule to the tree once more. For
  the tree of \<^verbatim>\<open>@media {} a {color: red}\<close> the first session writes 304 bits and
  leaves a tree whose media node holds the rule twice; the second session, on the tree
  as the first left it, writes 436 bits. Within one session already the two groupings
  differ: the frequency pass sees the rule once, the emission pass twice.
\<close>

theorem encoding_twice_differs:
  "\<exists>B1 B2 ast1 ast2.
     dump [MediaNode [] [], RuleNode \<lparr>selectors = Some [''a''], declarations = Some [Declaration ''color'' ''red'']\<rparr>] BitBuf_new = (Inr B1, ast1)
     \<and> ast1 \<noteq> [MediaNode [] [], RuleNode \<lparr>selectors = Some [''a''], declarations = Some [Declaration ''color'' ''red'']\<rparr>]
     \<and> dump ast1 BitBuf_new = (Inr B2, ast2)
     \<and> length_b B1 = 304 \<and> length_b B2 = 436 \<and> B1 \<noteq> B2
     \<and> fst (groupBlocks [MediaNode [] [], RuleNode \<lparr>selectors = Some [''a''], declarations = Some [Declaration ''color'' ''red'']\<rparr>])
         = [MediaBlock (Some 0) [] [\<lparr>selectors = Some [''a''], declarations = Some [Declaration ''color'' ''red'']\<rparr>]]
     \<and> fst (groupBlocks (snd (groupBlocks [MediaNode [] [], RuleNode \<lparr>selectors = Some [''a''], declarations = Some [Declaration ''color'' ''red'']\<rparr>])))
         = [MediaBlock (Some 0) [] [\<lparr>selectors = Some [''a''], declarations = Some [Declaration ''color'' ''red'']\<rparr>,
                                    \<lparr>selectors = Some [''a''], declarations = Some [Declaration ''color'' ''red'']\<rparr>]]"
proof -
  obtain B1 where d1: "dump [MediaNode [] [], RuleNode \<lparr>selectors = Some [''a''], declarations = Some [Declaration ''color'' ''red'']\<rparr>] BitBuf_new
      = (Inr B1, [MediaNode [] [\<lparr>selectors = Some [''a''], declarations = Some [Declaration ''color'' ''red'']\<rparr>,
                               \<lparr>selectors = Some [''a''], declarations = Some [Declaration ''color'' ''red'']\<rparr>],
                 RuleNode \<lparr>selectors = Some [''a''], declarations = Some [Declaration ''color'' ''red'']\<rparr>])"
    and l1: "length_b B1 = 304"
    using dump_media_first by blast
  obtain B2 where d2: "dump [MediaNode [] [\<lparr>selectors = Some [''a''], declarations = Some [Declaration ''color'' ''red'']\<rparr>,
                          \<lparr>selectors = Some [''a''], declarations = Some [Declaration ''color'' ''red'']\<rparr>],
             RuleNode \<lparr>selectors = Some [''a''], declarations = Some [Declaration ''color'' ''red'']\<rparr>] BitBuf_new
      = (Inr B2, [MediaNode [] [\<lparr>selectors = Some [''a''], declarations = Some [Declaration ''color'' ''red'']\<rparr>,
                               \<lparr>selectors = Some [''a''], declarations = Some [Declaration ''color'' ''red'']\<rparr>,
                               \<lparr>selectors = Some [''a''], declarations = Some [Declaration ''color'' ''red'']\<rparr>,
                               \<lparr>selectors = Some [''a''], declarations = Some [Declaration ''color'' ''red'']\<rparr>],
                 RuleNode \<lparr>selectors = Some [''a''], declarations = Some [Declaration ''color'' ''red'']\<rparr>])"
    and l2: "length_b B2 = 436"
    using dump_media_second by blast
  have "B1 \<noteq> B2"
    using l1 l2 by auto
  then show ?thesis
    using d1 d2 l1 l2 by (simp add: groupBlocks_def)
qed

lemma dump_empty_rule:
  "\<exists>B. dump [RuleNode \<lparr>selectors = Some [''a''], declarations = Some []\<rparr>] BitBuf_new
      = (Inr B, [RuleNode \<lparr>selectors = Some [''a''], declarations = Some []\<rparr>])
    \<and> BitBuf_inv B \<and> pos B = 0 \<and> content B = [
       1, 0, 1, 0, 0, 1, 1, 0, 1, 1, 0, 0, 0, 0, 0, 0, 0, 0, 0, 0, 0, 0, 0, 0,
       1, 1, 0, 0, 0, 0, 0, 0, 0, 0, 0, 0, 0, 0, 0, 0, 1, 1, 0, 0, 0, 0, 0, 0,
       0, 1, 0, 0, 0, 0, 0, 0, 0, 0, 1, 0, 0, 0, 0, 1, 1, 0, 0, 0, 0, 0, 0, 0,
       0, 0, 1, 0, 1, 0, 0, 1, 1, 0, 0, 0, 0, 0, 0, 0, 0, 0, 1, 0, 1, 0, 0, 1,
       1, 0, 0, 0, 0, 0, 0, 0, 0, 0, 1, 0]"
  by (simp add: dump_def loadFromAst_def groupBlocks_def see_def ESC_def Puffman_new_def single_tree [unfolded Puffman_new_def, simplified]
      buildMapToBin_def serializePreamble_def serialize_def
      Prop_dump_def StringEater_dump_def BlockType_dump_def
      writer_simps inv_new content_new new_fields str_bits_def octet_bits_numeral
      NULL_NODE_def NULL_TOKEN_def SPLIT_def)

lemma restore_empty_rule:
  assumes cov: "covered b" and p: "pos b = 0" and c: "content b = [
       1, 0, 1, 0, 0, 1, 1, 0, 1, 1, 0, 0, 0, 0, 0, 0, 0, 0, 0, 0, 0, 0, 0, 0,
       1, 1, 0, 0, 0, 0, 0, 0, 0, 0, 0, 0, 0, 0, 0, 0, 1, 1, 0, 0, 0, 0, 0, 0,
       0, 1, 0, 0, 0, 0, 0, 0, 0, 0, 1, 0, 0, 0, 0, 1, 1, 0, 0, 0, 0, 0, 0, 0,
       0, 0, 1, 0, 1, 0, 0, 1, 1, 0, 0, 0, 0, 0, 0, 0, 0, 0, 1, 0, 1, 0, 0, 1,
       1, 0, 0, 0, 0, 0, 0, 0, 0, 0, 1, 0]"
  shows "fst (restore b) = Inl TypeError"
proof -
  have "length_b b = length (content b)"
    by simp
  then have len: "length_b b = 108"
    unfolding c by simp
  show ?thesis
    by (simp add: restore_def loadFromPreamble_def unserialize_def fuel_steps
        readString_def readString_loop.simps StringEater_eat_def StringEater_eat_loop.simps
        readOctet_sim readBit_sim cov p c len hasMore_def BlockType_eat_def Prop_eat_def
        findToken_def render_rule_def render_media_def NL_def ESC_def Buffer_toString_def
        char_of_eq_iff bits_value_def charCodeAt_def
        NULL_NODE_def NULL_TOKEN_def SPLIT_def Puffman_new_def Let_def)
qed

theorem empty_rule_stylesheet_not_restorable:
  "\<exists>B. dump [RuleNode \<lparr>selectors = Some [''a''], declarations = Some []\<rparr>] BitBuf_new
      = (Inr B, [RuleNode \<lparr>selectors = Some [''a''], declarations = Some []\<rparr>])
    \<and> fst (restore B) = Inl TypeError"
proof -
  obtain B where d: "dump [RuleNode \<lparr>selectors = Some [''a''], declarations = Some []\<rparr>] BitBuf_new
      = (Inr B, [RuleNode \<lparr>selectors = Some [''a''], declarations = Some []\<rparr>])"
    and inv: "BitBuf_inv B" and p: "pos B = 0" and c: "content B = [
       1, 0, 1, 0, 0, 1, 1, 0, 1, 1, 0, 0, 0, 0, 0, 0, 0, 0, 0, 0, 0, 0, 0, 0,
       1, 1, 0, 0, 0, 0, 0, 0, 0, 0, 0, 0, 0, 0, 0, 0, 1, 1, 0, 0, 0, 0, 0, 0,
       0, 1, 0, 0, 0, 0, 0, 0, 0, 0, 1, 0, 0, 0, 0, 1, 1, 0, 0, 0, 0, 0, 0, 0,
       0, 0, 1, 0, 1, 0, 0, 1, 1, 0, 0, 0, 0, 0, 0, 0, 0, 0, 1, 0, 1, 0, 0, 1,
       1, 0, 0, 0, 0, 0, 0, 0, 0, 0, 1, 0]"
    using dump_empty_rule by blast
  have "fst (restore B) = Inl TypeError"
    using inv_covered [OF inv] p c by (rule restore_empty_rule)
  with d show ?thesis
    by blast
qed

end
